theory Spec2Isabelle
  imports Complex_Main "HOL-Library.Multiset"
begin

section \<open>Strings as Python sees them\<close>

text \<open>
  A Python \<open>str\<close> is a sequence of code points. The model keeps the code points below 256
  (one \<open>char\<close> each); every word the program compares against is plain ASCII. On that
  range \<open>str.lower()\<close> maps \<open>A..Z\<close> and the Latin-1 capitals (192..222 without 215) to the
  code point 32 higher and leaves every other code point alone; it never removes a
  character.
\<close>

definition lower_char :: "char \<Rightarrow> char" where
  "lower_char c =
     (let n = (of_char c :: nat)
      in if (65 \<le> n \<and> n \<le> 90) \<or> (192 \<le> n \<and> n \<le> 222 \<and> n \<noteq> 215)
         then char_of (n + 32) else c)"

definition lower :: "string \<Rightarrow> string" where
  "lower s = map lower_char s"

text \<open>
  \<open>str.isspace()\<close> on the same range, which is what \<open>str.strip()\<close> without an argument
  removes from both ends.
\<close>

definition isspace :: "char \<Rightarrow> bool" where
  "isspace c =
     (let n = (of_char c :: nat)
      in (9 \<le> n \<and> n \<le> 13) \<or> (28 \<le> n \<and> n \<le> 32) \<or> n = 133 \<or> n = 160)"

definition strip :: "string \<Rightarrow> string" where
  "strip s = rev (dropWhile isspace (rev (dropWhile isspace s)))"

section \<open>Polling one job (\<open>get_move_status\<close>, \<open>wait_for_move_completion\<close>)\<close>

type_synonym volume = string

text \<open>
  Every method of \<open>VolumeMove\<close> runs under the \<open>connect\<close> decorator, which rebuilds the
  connection object and then calls the method; it changes nothing that the methods below
  read, and the client behind it is the environment of the model.
\<close>

text \<open>
  What \<open>Job(job_id).get()\<close> brings back at one poll: the job's \<open>state\<close> together with
  \<open>progress.percent_complete\<close> when the job carries one, or one of the two exceptions the
  function catches (\<open>NetAppRestError\<close>, any other \<open>Exception\<close>).
\<close>

datatype poll_response = JobInfo string "int option" | ApiError | OtherError

definition get_move_status :: "poll_response \<Rightarrow> string \<times> int" where
  "get_move_status resp =
     (case resp of
        JobInfo state progress \<Rightarrow> (state, (case progress of Some p \<Rightarrow> p | None \<Rightarrow> 0))
      | ApiError \<Rightarrow> (''error'', 0)
      | OtherError \<Rightarrow> (''error'', 0))"

datatype job_state = Polling | Succeeded | Failed | TimedOut

text \<open>
  The two membership tests of the polling loop, in the order the loop makes them.
\<close>

definition classify :: "string \<Rightarrow> job_state" where
  "classify state =
     (if lower state \<in> set [''success'', ''complete'', ''completed''] then Succeeded
      else if lower state \<in> set [''failure'', ''error'', ''failed''] then Failed
      else Polling)"

text \<open>
  The loop of \<open>wait_for_move_completion\<close>. Each element of the list is one turn of the
  loop as the environment presents it: the reading of \<open>time.time()\<close> at the loop test and
  the answer of the status query made in that turn. The result is the terminal state of
  the job, one per \<open>return\<close> of the source (\<open>return True\<close> after a success state,
  \<open>return False\<close> after a failure state, \<open>return False\<close> after the loop when the time
  is up); \<open>None\<close> says that the job is still being polled when the listed turns are over.
  The state reported by the control plane is a string. The progress log lines change no
  state and are left out.
\<close>

fun wait_loop :: "real \<Rightarrow> int \<Rightarrow> (real \<times> poll_response) list \<Rightarrow> job_state option" where
  "wait_loop start_time timeout [] = None"
| "wait_loop start_time timeout ((now, resp) # rest) =
     (if now - start_time < real_of_int timeout then
        (let (state, percent_complete) = get_move_status resp
         in if classify state = Succeeded then Some Succeeded
            else if classify state = Failed then Some Failed
            else wait_loop start_time timeout rest)
      else Some TimedOut)"

definition wait_for_move_completion ::
  "real \<Rightarrow> int \<Rightarrow> (real \<times> poll_response) list \<Rightarrow> bool option" where
  "wait_for_move_completion start_time timeout polls =
     map_option (\<lambda>s. s = Succeeded) (wait_loop start_time timeout polls)"

section \<open>One worker (\<open>process_volume_move\<close>)\<close>

text \<open>
  \<open>initiate_volume_move_cli\<close> runs an external command and hands back \<open>(True, job_id)\<close>,
  \<open>(False, message)\<close> or, on the path where the output names a job id that the pattern
  does not match, nothing at all (\<open>None\<close>); unpacking that last value raises \<open>TypeError\<close>
  in the worker.
\<close>

datatype start_result = Started string | StartFailed string | NoResult

datatype error = TypeError | ValueError

record control_plane =
  initiate_volume_move_cli :: "volume \<Rightarrow> string \<Rightarrow> string \<Rightarrow> int \<Rightarrow> start_result"
  wait_start_time :: "volume \<Rightarrow> real"
  job_polls :: "volume \<Rightarrow> string \<Rightarrow> (real \<times> poll_response) list"

record mover =
  active_moves :: "volume \<rightharpoonup> string"
  move_results :: "volume \<rightharpoonup> bool"

definition process_volume_move ::
  "control_plane \<Rightarrow> volume \<Rightarrow> string \<Rightarrow> string \<Rightarrow> int \<Rightarrow> int \<Rightarrow> mover
     \<Rightarrow> (error + bool \<times> mover) option" where
  "process_volume_move cp volume_name dest_aggr cutover_action cutover_window timeout m =
     (case initiate_volume_move_cli cp volume_name dest_aggr cutover_action cutover_window of
        NoResult \<Rightarrow> Some (Inl TypeError)
      | StartFailed msg \<Rightarrow>
          Some (Inr (False, m\<lparr>move_results := (move_results m)(volume_name \<mapsto> False)\<rparr>))
      | Started job_id \<Rightarrow>
          (let m1 = m\<lparr>active_moves := (active_moves m)(volume_name \<mapsto> job_id)\<rparr>
           in case wait_for_move_completion (wait_start_time cp volume_name) timeout
                     (job_polls cp volume_name job_id) of
                None \<Rightarrow> None
              | Some move_success \<Rightarrow>
                  Some (Inr (move_success,
                    m1\<lparr>active_moves := (active_moves m1)(volume_name := None),
                       move_results := (move_results m1)(volume_name \<mapsto> move_success)\<rparr>))))"

section \<open>The scheduler (\<open>process_volume_list\<close>)\<close>

text \<open>
  The arguments of one \<open>executor.submit(self.process_volume_move, ...)\<close>. Both submit
  sites pass the volume, the destination, the cut-over action and the cut-over window and
  nothing else, so the worker runs with the default of its \<open>timeout\<close> parameter, 86400.
\<close>

record call =
  c_volume :: volume
  c_dest_aggr :: string
  c_cutover_action :: string
  c_cutover_window :: int
  c_timeout :: int

definition submit :: "string \<Rightarrow> string \<Rightarrow> int \<Rightarrow> volume \<Rightarrow> call" where
  "submit dest_aggr cutover_action cutover_window vol =
     \<lparr>c_volume = vol, c_dest_aggr = dest_aggr, c_cutover_action = cutover_action,
      c_cutover_window = cutover_window, c_timeout = 86400\<rparr>"

definition future_result :: "control_plane \<Rightarrow> call \<Rightarrow> mover \<Rightarrow> (error + bool \<times> mover) option" where
  "future_result cp c m =
     process_volume_move cp (c_volume c) (c_dest_aggr c) (c_cutover_action c)
       (c_cutover_window c) (c_timeout c) m"

text \<open>
  A Python \<open>dict\<close> keeps its keys in insertion order: assigning to a key that is present
  replaces the value where it stands, assigning to a new key appends it, \<open>del\<close> removes
  the entry of the key.
\<close>

fun dict_set :: "'k \<Rightarrow> 'v \<Rightarrow> ('k \<times> 'v) list \<Rightarrow> ('k \<times> 'v) list" where
  "dict_set k v [] = [(k, v)]"
| "dict_set k v ((k', v') # d) =
     (if k' = k then (k, v) # d else (k', v') # dict_set k v d)"

definition dict_del :: "'k \<Rightarrow> ('k \<times> 'v) list \<Rightarrow> ('k \<times> 'v) list" where
  "dict_del k d = filter (\<lambda>kv. fst kv \<noteq> k) d"

definition keys :: "('k \<times> 'v) list \<Rightarrow> 'k list" where
  "keys d = map fst d"

text \<open>
  The local variables of \<open>process_volume_list\<close> that the main loop changes, with the
  trace of the \<open>executor.submit\<close> calls made so far (oldest first).
\<close>

record loop_state =
  in_progress :: "(volume \<times> call) list"
  remaining_volumes :: "volume list"
  success_count :: nat
  failed_volumes :: "volume list"
  completed_volumes :: "volume list"
  submitted :: "call list"

text \<open>
  What the main loop sees of the future stored under a volume when it looks at it:
  \<open>future.done()\<close> false, or true with \<open>future.result()\<close> returning a boolean or raising
  the worker's exception again.
\<close>

datatype future_view = NotDone | Returned bool | Raised error

type_synonym observation = "volume \<Rightarrow> future_view"

text \<open>
  The first \<open>for\<close> of the loop body, over the snapshot \<open>list(in_progress.items())\<close>; the
  last argument is \<open>completed_now\<close>.
\<close>

fun check_futures ::
  "observation \<Rightarrow> (volume \<times> call) list \<Rightarrow> loop_state \<Rightarrow> volume list
     \<Rightarrow> error + loop_state \<times> volume list" where
  "check_futures ob [] st completed_now = Inr (st, completed_now)"
| "check_futures ob ((vol, future) # items) st completed_now =
     (case ob vol of
        NotDone \<Rightarrow> check_futures ob items st completed_now
      | Raised e \<Rightarrow> Inl e
      | Returned success \<Rightarrow>
          check_futures ob items
            (st\<lparr>success_count := (if success then success_count st + 1 else success_count st),
                failed_volumes := (if success then failed_volumes st else failed_volumes st @ [vol]),
                in_progress := dict_del vol (in_progress st),
                completed_volumes := completed_volumes st @ [vol]\<rparr>)
            (completed_now @ [vol]))"

text \<open>
  The second \<open>for\<close>, once around for every element of \<open>completed_now\<close>: while volumes
  remain, the first of them is popped, submitted and stored in \<open>in_progress\<close>.
\<close>

fun refill :: "(volume \<Rightarrow> call) \<Rightarrow> volume list \<Rightarrow> loop_state \<Rightarrow> loop_state" where
  "refill sub [] st = st"
| "refill sub (c # completed_now) st =
     refill sub completed_now
       (case remaining_volumes st of
          [] \<Rightarrow> st
        | next_vol # rest \<Rightarrow>
            st\<lparr>remaining_volumes := rest,
               in_progress := dict_set next_vol (sub next_vol) (in_progress st),
               submitted := submitted st @ [sub next_vol]\<rparr>)"

definition loop_iteration :: "(volume \<Rightarrow> call) \<Rightarrow> observation \<Rightarrow> loop_state \<Rightarrow> error + loop_state" where
  "loop_iteration sub ob st =
     (case check_futures ob (in_progress st) st [] of
        Inl e \<Rightarrow> Inl e
      | Inr (st', completed_now) \<Rightarrow> Inr (refill sub completed_now st'))"

text \<open>
  \<open>while in_progress:\<close> with one observation for each turn. \<open>None\<close>: the listed
  observations are used up and futures are still in progress. The periodic status block
  only logs and the \<open>sleep\<close> only waits.
\<close>

fun main_loop ::
  "(volume \<Rightarrow> call) \<Rightarrow> observation list \<Rightarrow> loop_state \<Rightarrow> (error + loop_state) option" where
  "main_loop sub [] st = (if in_progress st = [] then Some (Inr st) else None)"
| "main_loop sub (ob # obs) st =
     (if in_progress st = [] then Some (Inr st)
      else case loop_iteration sub ob st of
             Inl e \<Rightarrow> Some (Inl e)
           | Inr st' \<Rightarrow> main_loop sub obs st')"

text \<open>The states at the head of the loop, from the first one on, for the same turns.\<close>

fun loop_states :: "(volume \<Rightarrow> call) \<Rightarrow> observation list \<Rightarrow> loop_state \<Rightarrow> loop_state list" where
  "loop_states sub [] st = [st]"
| "loop_states sub (ob # obs) st =
     (if in_progress st = [] then [st]
      else case loop_iteration sub ob st of
             Inl e \<Rightarrow> [st]
           | Inr st' \<Rightarrow> st # loop_states sub obs st')"

text \<open>
  The state after the initial batch: \<open>volume_list[:max_concurrent]\<close> submitted in list
  order and stored in \<open>in_progress\<close>, the rest of the list waiting.
\<close>

definition seed :: "(volume \<Rightarrow> call) \<Rightarrow> volume list \<Rightarrow> nat \<Rightarrow> loop_state" where
  "seed sub volume_list k =
     \<lparr>in_progress = fold (\<lambda>v d. dict_set v (sub v) d) (take k volume_list) [],
      remaining_volumes = drop k volume_list,
      success_count = 0,
      failed_volumes = [],
      completed_volumes = [],
      submitted = map sub (take k volume_list)\<rparr>"

text \<open>
  The body of the \<open>try\<close> in \<open>_check_destination_aggr_status\<close> is one log call followed by
  \<open>return True\<close>; each \<open>except\<close> returns \<open>False\<close>. The argument says how the body ended.
\<close>

datatype try_outcome = Completed | RaisedNetAppRestError | RaisedException

definition check_destination_aggr_status :: "try_outcome \<Rightarrow> string \<Rightarrow> bool" where
  "check_destination_aggr_status body dest_aggr =
     (case body of
        Completed \<Rightarrow> True
      | RaisedNetAppRestError \<Rightarrow> False
      | RaisedException \<Rightarrow> False)"

text \<open>
  The final report: the numbers and the list the summary prints.
\<close>

record report =
  total_volumes :: nat
  succeeded :: nat
  failed :: "volume list"
  completed :: "volume list"

datatype run_exit = AbortedUnhealthy | Finished report

text \<open>The value \<open>process_volume_list\<close> returns at each of its two \<open>return\<close>s.\<close>

fun returned :: "run_exit \<Rightarrow> bool" where
  "returned AbortedUnhealthy = False"
| "returned (Finished r) = (succeeded r = total_volumes r)"

fun summary :: "run_exit \<Rightarrow> report option" where
  "summary AbortedUnhealthy = None"
| "summary (Finished r) = Some r"

text \<open>
  \<open>process_volume_list\<close>: the health check unless it is bypassed, the executor (which
  raises \<open>ValueError\<close> for \<open>max_workers <= 0\<close>), the initial batch, the main loop, the
  report. The result pairs the trace of submitted calls with the exit taken. The
  \<open>timeout\<close> argument is accepted and, as in the source, used nowhere in the body.
\<close>

definition process_volume_list ::
  "try_outcome \<Rightarrow> observation list \<Rightarrow> volume list \<Rightarrow> string \<Rightarrow> int \<Rightarrow> string \<Rightarrow> int \<Rightarrow> int \<Rightarrow> bool
     \<Rightarrow> (error + call list \<times> run_exit) option" where
  "process_volume_list health obs volume_list dest_aggr max_concurrent cutover_action
       cutover_window timeout ignore_health_check =
     (if \<not> ignore_health_check \<and> \<not> check_destination_aggr_status health dest_aggr
      then Some (Inr ([], AbortedUnhealthy))
      else if max_concurrent \<le> 0 then Some (Inl ValueError)
      else
        (let sub = submit dest_aggr cutover_action cutover_window
         in case main_loop sub obs (seed sub volume_list (nat max_concurrent)) of
              None \<Rightarrow> None
            | Some (Inl e) \<Rightarrow> Some (Inl e)
            | Some (Inr st) \<Rightarrow>
                Some (Inr (submitted st,
                  Finished \<lparr>total_volumes = length volume_list,
                            succeeded = success_count st,
                            failed = failed_volumes st,
                            completed = completed_volumes st\<rparr>))))"

section \<open>Collecting the volumes (\<open>read_volume_list\<close>, \<open>main\<close>)\<close>

text \<open>
  \<open>read_volume_list\<close>: the lines of the file, stripped, without the empty ones; \<open>[]\<close> when
  the file cannot be read (\<open>None\<close>).
\<close>

definition read_volume_list :: "string list option \<Rightarrow> volume list" where
  "read_volume_list file =
     (case file of
        None \<Rightarrow> []
      | Some lines \<Rightarrow> map strip (filter (\<lambda>line. strip line \<noteq> []) lines))"

text \<open>
  The volumes \<open>main\<close> gathers: those of the file when \<open>--volume-list\<close> is given, then those
  of the \<open>--volume\<close> flags.
\<close>

definition supplied_volumes :: "string list option option \<Rightarrow> volume list option \<Rightarrow> volume list" where
  "supplied_volumes volume_list_arg volume_arg =
     (case volume_list_arg of None \<Rightarrow> [] | Some file \<Rightarrow> read_volume_list file) @
     (case volume_arg of None \<Rightarrow> [] | Some vs \<Rightarrow> vs)"

text \<open>
  \<open>list(set(volumes))\<close>: Python fixes the elements of the result, each once, and leaves
  their order to the hash of the strings, which changes from one process to the next. So
  the step is a relation between the gathered list and the list handed to the scheduler;
  \<open>main\<close> leaves with exit code 1 before it when nothing was gathered.
\<close>

definition list_of_set :: "'a list \<Rightarrow> 'a list \<Rightarrow> bool" where
  "list_of_set xs ys = (distinct ys \<and> set ys = set xs)"

definition main_volumes :: "string list option option \<Rightarrow> volume list option \<Rightarrow> volume list \<Rightarrow> bool" where
  "main_volumes volume_list_arg volume_arg volumes =
     (supplied_volumes volume_list_arg volume_arg \<noteq> [] \<and>
      list_of_set (supplied_volumes volume_list_arg volume_arg) volumes)"

section \<open>The runs of the scheduler\<close>

text \<open>
  The states at the head of the main loop in a run of \<open>process_volume_list\<close> that has
  passed the health check and built its executor.
\<close>

definition scheduler_states ::
  "volume list \<Rightarrow> string \<Rightarrow> int \<Rightarrow> string \<Rightarrow> int \<Rightarrow> observation list \<Rightarrow> loop_state list" where
  "scheduler_states volume_list dest_aggr max_concurrent cutover_action cutover_window obs =
     (let sub = submit dest_aggr cutover_action cutover_window
      in loop_states sub obs (seed sub volume_list (nat max_concurrent)))"

text \<open>
  What holds at the head of every turn: the keys of \<open>in_progress\<close> are distinct and at
  most \<open>K\<close>, the calls submitted so far followed by the calls still to make are the calls
  of the whole list in its order, nothing waits while nothing is in progress, and every
  completed volume has been counted once, as a success or in the failed list.
\<close>

definition sched_inv :: "(volume \<Rightarrow> call) \<Rightarrow> nat \<Rightarrow> volume list \<Rightarrow> loop_state \<Rightarrow> bool" where
  "sched_inv sub K vl st \<longleftrightarrow>
     distinct (keys (in_progress st)) \<and> length (in_progress st) \<le> K \<and>
     submitted st @ map sub (remaining_volumes st) = map sub vl \<and>
     (in_progress st = [] \<longrightarrow> remaining_volumes st = []) \<and>
     success_count st + length (failed_volumes st) = length (completed_volumes st) \<and>
     mset (failed_volumes st) \<subseteq># mset (completed_volumes st)"

text \<open>
  For a list without repetition: every volume of the list is in exactly one of
  in progress, completed and waiting.
\<close>

definition acct_inv :: "volume list \<Rightarrow> loop_state \<Rightarrow> bool" where
  "acct_inv vl st \<longleftrightarrow>
     mset (keys (in_progress st)) + mset (completed_volumes st) + mset (remaining_volumes st)
       = mset vl"

text \<open>
  Two readings of a run, turn by turn as the loop takes them: the number of futures the
  turns find done, and whether some turn finds a future that raised. A turn is taken only
  while futures are in progress, so observations listed after the end of the loop count
  for nothing.
\<close>

fun seen_done :: "(volume \<Rightarrow> call) \<Rightarrow> observation list \<Rightarrow> loop_state \<Rightarrow> nat" where
  "seen_done sub [] st = 0"
| "seen_done sub (ob # obs) st =
     (if in_progress st = [] then 0
      else case loop_iteration sub ob st of
             Inl e \<Rightarrow> 0
           | Inr st' \<Rightarrow>
               length [v \<leftarrow> keys (in_progress st). ob v \<noteq> NotDone] + seen_done sub obs st')"

fun seen_raise :: "(volume \<Rightarrow> call) \<Rightarrow> observation list \<Rightarrow> loop_state \<Rightarrow> bool" where
  "seen_raise sub [] st = False"
| "seen_raise sub (ob # obs) st =
     (in_progress st \<noteq> [] \<and>
      (case loop_iteration sub ob st of
         Inl e \<Rightarrow> True
       | Inr st' \<Rightarrow> seen_raise sub obs st'))"

section \<open>Classification of the reported state\<close>

lemma lower_char_blank: "lower_char CHR '' '' = CHR '' ''"
  by code_simp

lemma lower_trailing_blank: "last (lower (s @ '' '')) = CHR '' ''"
  by (simp add: lower_def lower_char_blank)

lemma classify_trailing_blank: "classify (s @ '' '') = Polling"
proof -
  have "lower (s @ '' '') \<notin>
      set [''success'', ''complete'', ''completed'', ''failure'', ''error'', ''failed'']"
    using lower_trailing_blank [of s] by auto
  then show ?thesis by (simp add: classify_def)
qed

lemma classify_words:
  "classify ''Complete'' = Succeeded" "classify ''SUCCESS'' = Succeeded"
  "classify ''error'' = Failed" "classify ''running'' = Polling"
  "classify ''success'' = Succeeded"
  by code_simp+

text \<open>
  C2, as the code has it. The class of a state string is decided by its lowered form
  alone: Succeeded exactly for the three success words, Failed exactly for the three
  failure words, Polling for everything else, so two strings that differ only in case
  get the same class, and \<open>Complete\<close> and \<open>SUCCESS\<close> are Succeeded. Nothing strips the
  string: with a blank at its end it is none of the six words and the job stays in
  Polling.
\<close>

theorem classify_by_lowered_word:
  "(classify s = Succeeded \<longleftrightarrow> lower s \<in> {''success'', ''complete'', ''completed''})
   \<and> (classify s = Failed \<longleftrightarrow> lower s \<in> {''failure'', ''error'', ''failed''})
   \<and> (classify s = Polling \<longleftrightarrow>
        lower s \<notin> {''success'', ''complete'', ''completed'', ''failure'', ''error'', ''failed''})
   \<and> (lower s = lower t \<longrightarrow> classify s = classify t)
   \<and> classify ''Complete'' = Succeeded \<and> classify ''SUCCESS'' = Succeeded
   \<and> classify (s @ '' '') = Polling"
proof -
  have "(classify s = Succeeded \<longleftrightarrow> lower s \<in> {''success'', ''complete'', ''completed''})
   \<and> (classify s = Failed \<longleftrightarrow> lower s \<in> {''failure'', ''error'', ''failed''})
   \<and> (classify s = Polling \<longleftrightarrow>
        lower s \<notin> {''success'', ''complete'', ''completed'', ''failure'', ''error'', ''failed''})
   \<and> (lower s = lower t \<longrightarrow> classify s = classify t)"
    by (simp add: classify_def)
  then show ?thesis
    using classify_words(1,2) classify_trailing_blank [of s] by blast
qed

theorem classify_by_lowered_word_witness:
  "lower ''Failed'' = lower ''FAILED'' \<and> classify ''Failed'' = classify ''FAILED''
   \<and> classify ''completed '' = Polling"
proof -
  have h: "lower ''Failed'' = lower ''FAILED''" by code_simp
  show ?thesis
    using h classify_by_lowered_word [of "''Failed''" "''FAILED''"]
      classify_by_lowered_word [of "''completed''" "''x''"] by simp
qed

text \<open>
  C2 as the specification words it fails: \<open>completed\<close> followed by a blank is not
  classified as Succeeded.
\<close>

theorem trailing_blank_not_succeeded: "classify ''completed '' \<noteq> Succeeded"
  by code_simp

section \<open>Poll errors\<close>

lemma wait_loop_skip:
  "\<forall>(t, r) \<in> set earlier. t - start_time < real_of_int timeout
        \<and> classify (fst (get_move_status r)) = Polling
   \<Longrightarrow> wait_loop start_time timeout (earlier @ rest) = wait_loop start_time timeout rest"
  by (induction earlier) (auto split: prod.splits)

lemma get_move_status_error:
  "resp = ApiError \<or> resp = OtherError \<Longrightarrow> get_move_status resp = (''error'', 0)"
  by (auto simp: get_move_status_def)

text \<open>
  C1, as the code has it. A status query that raises is reported as state \<open>error\<close> with
  percent 0, and \<open>error\<close> is one of the failure words: when the polls before it were in
  time and left the job in Polling and the failing poll is itself made in time, the job
  ends as Failed at that very poll, whatever later polls would have said, and
  \<open>wait_for_move_completion\<close> returns \<open>False\<close>.
\<close>

theorem poll_error_fails_job:
  assumes "resp = ApiError \<or> resp = OtherError"
    and "now - start_time < real_of_int timeout"
    and "\<forall>(t, r) \<in> set earlier. t - start_time < real_of_int timeout
           \<and> classify (fst (get_move_status r)) = Polling"
  shows "get_move_status resp = (''error'', 0)
     \<and> wait_loop start_time timeout (earlier @ (now, resp) # later) = Some Failed
     \<and> wait_for_move_completion start_time timeout (earlier @ (now, resp) # later) = Some False"
proof -
  have st: "get_move_status resp = (''error'', 0)"
    using assms(1) by (rule get_move_status_error)
  have "wait_loop start_time timeout ((now, resp) # later) = Some Failed"
    using assms(2) st classify_words(3) by simp
  then have "wait_loop start_time timeout (earlier @ (now, resp) # later) = Some Failed"
    using wait_loop_skip [OF assms(3)] by simp
  then show ?thesis
    using st by (simp add: wait_for_move_completion_def)
qed

theorem poll_error_fails_job_witness:
  "wait_loop 0 86400
     [(0, JobInfo ''running'' (Some 10)), (30, ApiError), (60, JobInfo ''success'' (Some 100))]
     = Some Failed
   \<and> wait_for_move_completion 0 86400
     [(0, JobInfo ''running'' (Some 10)), (30, ApiError), (60, JobInfo ''success'' (Some 100))]
     = Some False"
proof -
  have a: "ApiError = ApiError \<or> ApiError = OtherError" by simp
  have b: "(30::real) - 0 < real_of_int 86400" by simp
  have c: "\<forall>(t, r) \<in> set [(0::real, JobInfo ''running'' (Some 10))].
             t - 0 < real_of_int 86400 \<and> classify (fst (get_move_status r)) = Polling"
    using classify_words(4) by (simp add: get_move_status_def)
  show ?thesis
    using poll_error_fails_job [OF a b c, of "[(60, JobInfo ''success'' (Some 100))]"] by simp
qed

text \<open>
  C1 as the specification words it fails: one poll error at the first poll, well inside
  the timeout, ends the job as Failed although the next poll would have reported success.
\<close>

theorem poll_error_terminates_job:
  "wait_loop 0 86400 [(0, ApiError), (30, JobInfo ''success'' (Some 100))] = Some Failed"
  using classify_words(3) by (simp add: get_move_status_def)

section \<open>Dictionaries\<close>

lemma keys_dict_set:
  "keys (dict_set k v d) = (if k \<in> set (keys d) then keys d else keys d @ [k])"
  by (induction d) (force simp: keys_def)+

lemma dict_set_not_empty: "dict_set k v d \<noteq> []"
  by (cases d) (auto split: if_splits)

lemma length_dict_set: "length (dict_set k v d) \<le> Suc (length d)"
  by (induction d) auto

lemma distinct_keys_dict_set: "distinct (keys d) \<Longrightarrow> distinct (keys (dict_set k v d))"
  by (simp add: keys_dict_set)

lemma keys_dict_del: "keys (dict_del k d) = filter (\<lambda>x. x \<noteq> k) (keys d)"
  by (induction d) (auto simp: keys_def dict_del_def)

lemma length_keys: "length (keys d) = length d"
  by (simp add: keys_def)

lemma mset_filter_out:
  "distinct xs \<Longrightarrow> k \<in> set xs \<Longrightarrow> mset (filter (\<lambda>x. x \<noteq> k) xs) + {#k#} = mset xs"
proof (induction xs)
  case Nil
  then show ?case by simp
next
  case (Cons x xs)
  show ?case
  proof (cases "x = k")
    case True
    then have "k \<notin> set xs" using Cons.prems by simp
    then have "filter (\<lambda>x. x \<noteq> k) xs = xs" by (auto simp: filter_id_conv)
    then show ?thesis using True by simp
  next
    case False
    then show ?thesis using Cons by simp
  qed
qed

lemma mset_keys_dict_del:
  "distinct (keys d) \<Longrightarrow> k \<in> set (keys d) \<Longrightarrow> mset (keys (dict_del k d)) + {#k#} = mset (keys d)"
  using mset_filter_out [of "keys d" k] by (simp add: keys_dict_del)

lemma length_dict_del:
  assumes "distinct (keys d)" "k \<in> set (keys d)"
  shows "Suc (length (dict_del k d)) = length d"
proof -
  have "size (mset (keys (dict_del k d)) + {#k#}) = size (mset (keys d))"
    using mset_keys_dict_del [OF assms] by simp
  then show ?thesis by (simp add: length_keys)
qed

section \<open>The two phases of a turn in closed form\<close>

lemma check_futures_closed:
  "check_futures ob items st now = Inr (st', now') \<Longrightarrow>
     now' = now @ [v \<leftarrow> keys items. ob v \<noteq> NotDone] \<and>
     in_progress st' =
       filter (\<lambda>kv. fst kv \<notin> set [v \<leftarrow> keys items. ob v \<noteq> NotDone]) (in_progress st) \<and>
     completed_volumes st' = completed_volumes st @ [v \<leftarrow> keys items. ob v \<noteq> NotDone] \<and>
     failed_volumes st' = failed_volumes st @ [v \<leftarrow> keys items. ob v = Returned False] \<and>
     success_count st' = success_count st + length [v \<leftarrow> keys items. ob v = Returned True] \<and>
     remaining_volumes st' = remaining_volumes st \<and> submitted st' = submitted st \<and>
     (\<forall>v \<in> set (keys items). \<forall>e. ob v \<noteq> Raised e)"
proof (induction items arbitrary: st now)
  case Nil
  then show ?case by (simp add: keys_def)
next
  case (Cons a items)
  obtain vol fut where a: "a = (vol, fut)" by (cases a)
  show ?case
  proof (cases "ob vol")
    case NotDone
    then have "check_futures ob items st now = Inr (st', now')"
      using Cons.prems a by simp
    from Cons.IH [OF this] show ?thesis
      using NotDone a by (simp add: keys_def)
  next
    case (Raised e)
    then show ?thesis using Cons.prems a by simp
  next
    case (Returned success)
    let ?st1 = "st\<lparr>success_count := (if success then success_count st + 1 else success_count st),
                failed_volumes := (if success then failed_volumes st else failed_volumes st @ [vol]),
                in_progress := dict_del vol (in_progress st),
                completed_volumes := completed_volumes st @ [vol]\<rparr>"
    have "check_futures ob items ?st1 (now @ [vol]) = Inr (st', now')"
      using Cons.prems a Returned by simp
    from Cons.IH [OF this] show ?thesis
      using Returned a by (auto simp: keys_def dict_del_def)
  qed
qed

lemma check_futures_total:
  "\<forall>v \<in> set (keys items). \<forall>e. ob v \<noteq> Raised e \<Longrightarrow> \<exists>r. check_futures ob items st now = Inr r"
proof (induction items arbitrary: st now)
  case Nil
  then show ?case by simp
next
  case (Cons a items)
  obtain vol fut where a: "a = (vol, fut)" by (cases a)
  from Cons.prems have rest: "\<forall>v \<in> set (keys items). \<forall>e. ob v \<noteq> Raised e"
    by (simp add: keys_def)
  show ?case
  proof (cases "ob vol")
    case NotDone
    then show ?thesis using Cons.IH [OF rest] a by simp
  next
    case (Raised e)
    then show ?thesis using Cons.prems a by (simp add: keys_def)
  next
    case (Returned success)
    then show ?thesis using Cons.IH [OF rest] a by simp
  qed
qed

lemma refill_closed:
  "in_progress (refill sub cn st) =
      fold (\<lambda>v d. dict_set v (sub v) d) (take (length cn) (remaining_volumes st)) (in_progress st) \<and>
   remaining_volumes (refill sub cn st) = drop (length cn) (remaining_volumes st) \<and>
   submitted (refill sub cn st) = submitted st @ map sub (take (length cn) (remaining_volumes st)) \<and>
   success_count (refill sub cn st) = success_count st \<and>
   failed_volumes (refill sub cn st) = failed_volumes st \<and>
   completed_volumes (refill sub cn st) = completed_volumes st"
proof (induction cn arbitrary: st)
  case Nil
  then show ?case by simp
next
  case (Cons c cn)
  show ?case
  proof (cases "remaining_volumes st")
    case Nil
    then show ?thesis using Cons.IH [of st] by simp
  next
    case (Cons next_vol rest)
    then show ?thesis
      using Cons.IH [of "st\<lparr>remaining_volumes := rest,
               in_progress := dict_set next_vol (sub next_vol) (in_progress st),
               submitted := submitted st @ [sub next_vol]\<rparr>"]
      by simp
  qed
qed

lemma length_fold_dict_set:
  "length (fold (\<lambda>v d. dict_set v (sub v) d) xs d) \<le> length d + length xs"
proof (induction xs arbitrary: d)
  case Nil
  then show ?case by simp
next
  case (Cons x xs)
  have "length (fold (\<lambda>v d. dict_set v (sub v) d) xs (dict_set x (sub x) d))
          \<le> length (dict_set x (sub x) d) + length xs"
    by (rule Cons.IH)
  then show ?case using length_dict_set [of x "sub x" d] by simp
qed

lemma distinct_fold_dict_set:
  "distinct (keys d) \<Longrightarrow> distinct (keys (fold (\<lambda>v d. dict_set v (sub v) d) xs d))"
  by (induction xs arbitrary: d) (simp_all add: distinct_keys_dict_set)

lemma fold_dict_set_not_empty:
  "d \<noteq> [] \<or> xs \<noteq> [] \<Longrightarrow> fold (\<lambda>v d. dict_set v (sub v) d) xs d \<noteq> []"
  by (induction xs arbitrary: d) (simp_all add: dict_set_not_empty)

lemma keys_fold_dict_set:
  "distinct (keys d @ xs) \<Longrightarrow> keys (fold (\<lambda>v d. dict_set v (sub v) d) xs d) = keys d @ xs"
proof (induction xs arbitrary: d)
  case Nil
  then show ?case by simp
next
  case (Cons x xs)
  then have k: "keys (dict_set x (sub x) d) = keys d @ [x]"
    by (simp add: keys_dict_set)
  have "distinct (keys (dict_set x (sub x) d) @ xs)"
    using Cons.prems k by simp
  from Cons.IH [OF this] show ?case using k by simp
qed

lemma loop_iteration_closed:
  assumes "loop_iteration sub ob st = Inr st'"
  shows "in_progress st' =
           fold (\<lambda>v d. dict_set v (sub v) d)
             (take (length [v \<leftarrow> keys (in_progress st). ob v \<noteq> NotDone]) (remaining_volumes st))
             [kv \<leftarrow> in_progress st. ob (fst kv) = NotDone]"
    and "remaining_volumes st' =
           drop (length [v \<leftarrow> keys (in_progress st). ob v \<noteq> NotDone]) (remaining_volumes st)"
    and "submitted st' = submitted st @
           map sub (take (length [v \<leftarrow> keys (in_progress st). ob v \<noteq> NotDone]) (remaining_volumes st))"
    and "completed_volumes st' =
           completed_volumes st @ [v \<leftarrow> keys (in_progress st). ob v \<noteq> NotDone]"
    and "failed_volumes st' =
           failed_volumes st @ [v \<leftarrow> keys (in_progress st). ob v = Returned False]"
    and "success_count st' =
           success_count st + length [v \<leftarrow> keys (in_progress st). ob v = Returned True]"
    and "\<forall>v \<in> set (keys (in_progress st)). \<forall>e. ob v \<noteq> Raised e"
proof -
  obtain st1 cn where cf: "check_futures ob (in_progress st) st [] = Inr (st1, cn)"
    and st': "st' = refill sub cn st1"
    using assms by (auto simp: loop_iteration_def split: sum.splits)
  note c = check_futures_closed [OF cf]
  have ip1: "in_progress st1 = [kv \<leftarrow> in_progress st. ob (fst kv) = NotDone]"
  proof -
    have "in_progress st1 =
        filter (\<lambda>kv. fst kv \<notin> set [v \<leftarrow> keys (in_progress st). ob v \<noteq> NotDone]) (in_progress st)"
      using c by simp
    also have "\<dots> = [kv \<leftarrow> in_progress st. ob (fst kv) = NotDone]"
      by (rule filter_cong) (auto simp: keys_def)
    finally show ?thesis .
  qed
  have cn: "cn = [v \<leftarrow> keys (in_progress st). ob v \<noteq> NotDone]"
    using c by simp
  note r = refill_closed [of sub cn st1]
  show "in_progress st' =
           fold (\<lambda>v d. dict_set v (sub v) d)
             (take (length [v \<leftarrow> keys (in_progress st). ob v \<noteq> NotDone]) (remaining_volumes st))
             [kv \<leftarrow> in_progress st. ob (fst kv) = NotDone]"
    using r c ip1 cn st' by simp
  show "remaining_volumes st' =
           drop (length [v \<leftarrow> keys (in_progress st). ob v \<noteq> NotDone]) (remaining_volumes st)"
    using r c cn st' by simp
  show "submitted st' = submitted st @
           map sub (take (length [v \<leftarrow> keys (in_progress st). ob v \<noteq> NotDone]) (remaining_volumes st))"
    using r c cn st' by simp
  show "completed_volumes st' =
           completed_volumes st @ [v \<leftarrow> keys (in_progress st). ob v \<noteq> NotDone]"
    using r c st' by simp
  show "failed_volumes st' =
           failed_volumes st @ [v \<leftarrow> keys (in_progress st). ob v = Returned False]"
    using r c st' by simp
  show "success_count st' =
           success_count st + length [v \<leftarrow> keys (in_progress st). ob v = Returned True]"
    using r c st' by simp
  show "\<forall>v \<in> set (keys (in_progress st)). \<forall>e. ob v \<noteq> Raised e"
    using c by simp
qed

section \<open>The invariants are kept\<close>

lemma length_done_notdone:
  "length [v \<leftarrow> keys d. ob v \<noteq> NotDone] + length [kv \<leftarrow> d. ob (fst kv) = NotDone] = length d"
proof -
  have "[v \<leftarrow> keys d. ob v \<noteq> NotDone] = map fst [kv \<leftarrow> d. ob (fst kv) \<noteq> NotDone]"
    by (simp add: keys_def filter_map comp_def)
  then show ?thesis
    using sum_length_filter_compl [of "\<lambda>kv. ob (fst kv) = NotDone" d] by simp
qed

lemma keys_filter: "keys (filter (\<lambda>kv. P (fst kv)) d) = filter P (keys d)"
  by (simp add: keys_def filter_map comp_def)

lemma outcome_counts:
  "\<forall>v \<in> set xs. \<forall>e. ob v \<noteq> Raised e \<Longrightarrow>
   length [v \<leftarrow> xs. ob v = Returned True] + length [v \<leftarrow> xs. ob v = Returned False]
     = length [v \<leftarrow> xs. ob v \<noteq> NotDone]"
proof (induction xs)
  case Nil
  then show ?case by simp
next
  case (Cons x xs)
  then show ?case by (cases "ob x") auto
qed

lemma failed_among_done:
  "mset [v \<leftarrow> xs. ob v = Returned False] \<subseteq># mset [v \<leftarrow> xs. ob v \<noteq> NotDone]"
proof -
  have "[v \<leftarrow> xs. ob v = Returned False] = [v \<leftarrow> [v \<leftarrow> xs. ob v \<noteq> NotDone]. ob v = Returned False]"
    by (simp, rule filter_cong) auto
  then have "mset [v \<leftarrow> xs. ob v = Returned False]
      = filter_mset (\<lambda>v. ob v = Returned False) (mset [v \<leftarrow> xs. ob v \<noteq> NotDone])"
    by (metis mset_filter)
  then show ?thesis by simp
qed

lemma sched_inv_step:
  assumes inv: "sched_inv sub K vl st" and it: "loop_iteration sub ob st = Inr st'"
  shows "sched_inv sub K vl st'"
proof -
  note c = loop_iteration_closed [OF it]
  let ?n = "length [v \<leftarrow> keys (in_progress st). ob v \<noteq> NotDone]"
  let ?keep = "[kv \<leftarrow> in_progress st. ob (fst kv) = NotDone]"
  have d: "distinct (keys (in_progress st'))"
  proof -
    have "distinct (keys ?keep)"
      using inv keys_filter [of "\<lambda>v. ob v = NotDone" "in_progress st"]
      by (simp add: sched_inv_def)
    then show ?thesis using c(1) by (simp add: distinct_fold_dict_set)
  qed
  have l: "length (in_progress st') \<le> K"
  proof -
    have "length (in_progress st') \<le> length ?keep + length (take ?n (remaining_volumes st))"
      using c(1) length_fold_dict_set [of sub "take ?n (remaining_volumes st)" ?keep] by simp
    also have "\<dots> \<le> length ?keep + ?n" by simp
    also have "\<dots> = length (in_progress st)"
      using length_done_notdone [of ob "in_progress st"] by simp
    finally show ?thesis using inv by (simp add: sched_inv_def)
  qed
  have f: "submitted st' @ map sub (remaining_volumes st') = map sub vl"
  proof -
    have "submitted st' @ map sub (remaining_volumes st')
        = submitted st @ map sub (take ?n (remaining_volumes st) @ drop ?n (remaining_volumes st))"
      using c(2,3) by (simp flip: map_append)
    then show ?thesis using inv by (simp add: sched_inv_def)
  qed
  have e: "in_progress st' = [] \<longrightarrow> remaining_volumes st' = []"
  proof
    assume emp: "in_progress st' = []"
    show "remaining_volumes st' = []"
    proof (cases "remaining_volumes st = []")
      case True
      then show ?thesis using c(2) by simp
    next
      case False
      have "?keep = [] \<and> take ?n (remaining_volumes st) = []"
        using emp c(1) fold_dict_set_not_empty [of ?keep "take ?n (remaining_volumes st)" sub]
        by auto
      then have "?keep = []" "?n = 0" using False by auto
      then have "length (in_progress st) = 0"
        using length_done_notdone [of ob "in_progress st"] by simp
      then have "remaining_volumes st = []" using inv by (simp add: sched_inv_def)
      then show ?thesis using False by simp
    qed
  qed
  have n: "success_count st' + length (failed_volumes st') = length (completed_volumes st')"
    using c(4,5,6) outcome_counts [OF c(7)] inv by (simp add: sched_inv_def)
  have m: "mset (failed_volumes st') \<subseteq># mset (completed_volumes st')"
    using c(4,5) failed_among_done [of ob "keys (in_progress st)"] inv
    by (simp add: sched_inv_def subset_mset.add_mono)
  show ?thesis
    using d l f e n m by (simp add: sched_inv_def)
qed

lemma acct_inv_step:
  assumes dv: "distinct vl" and inv: "acct_inv vl st" and it: "loop_iteration sub ob st = Inr st'"
  shows "acct_inv vl st'"
proof -
  note c = loop_iteration_closed [OF it]
  let ?n = "length [v \<leftarrow> keys (in_progress st). ob v \<noteq> NotDone]"
  let ?keep = "[kv \<leftarrow> in_progress st. ob (fst kv) = NotDone]"
  let ?new = "take ?n (remaining_volumes st)"
  have all: "mset (keys (in_progress st) @ completed_volumes st @ remaining_volumes st) = mset vl"
    using inv by (simp add: acct_inv_def add.assoc)
  then have "distinct (keys (in_progress st) @ completed_volumes st @ remaining_volumes st)"
    using dv by (metis mset_eq_imp_distinct_iff)
  then have "distinct (keys (in_progress st) @ remaining_volumes st)" by auto
  then have "distinct (keys ?keep @ ?new)"
    using keys_filter [of "\<lambda>v. ob v = NotDone" "in_progress st"]
    by (auto dest: in_set_takeD)
  then have k: "keys (in_progress st') = keys ?keep @ ?new"
    using c(1) keys_fold_dict_set by simp
  have split: "mset (keys ?keep) + mset [v \<leftarrow> keys (in_progress st). ob v \<noteq> NotDone]
      = mset (keys (in_progress st))"
    using keys_filter [of "\<lambda>v. ob v = NotDone" "in_progress st"] by simp
  have "mset (keys (in_progress st')) + mset (completed_volumes st') + mset (remaining_volumes st')
      = mset (keys ?keep) + mset [v \<leftarrow> keys (in_progress st). ob v \<noteq> NotDone]
        + mset (completed_volumes st) + (mset ?new + mset (drop ?n (remaining_volumes st)))"
    using k c(2,4) by (simp add: ac_simps)
  also have "mset ?new + mset (drop ?n (remaining_volumes st)) = mset (remaining_volumes st)"
    by (metis append_take_drop_id mset_append)
  finally show ?thesis
    using split inv by (simp add: acct_inv_def)
qed

lemma sched_inv_seed:
  assumes "0 < K"
  shows "sched_inv sub K vl (seed sub vl K)"
proof -
  have "length (in_progress (seed sub vl K)) \<le> K"
    using length_fold_dict_set [of sub "take K vl" "[]"] by (simp add: seed_def)
  moreover have "distinct (keys (in_progress (seed sub vl K)))"
    using distinct_fold_dict_set [of "[]" sub "take K vl"] by (simp add: seed_def keys_def)
  moreover have "submitted (seed sub vl K) @ map sub (remaining_volumes (seed sub vl K)) = map sub vl"
    by (simp add: seed_def flip: map_append)
  moreover have "in_progress (seed sub vl K) = [] \<longrightarrow> remaining_volumes (seed sub vl K) = []"
  proof
    assume emp: "in_progress (seed sub vl K) = []"
    have "take K vl = []"
    proof (rule ccontr)
      assume "take K vl \<noteq> []"
      then have "fold (\<lambda>v d. dict_set v (sub v) d) (take K vl) [] \<noteq> []"
        by (simp add: fold_dict_set_not_empty)
      then show False using emp by (simp add: seed_def)
    qed
    then have "vl = []" using assms by simp
    then show "remaining_volumes (seed sub vl K) = []"
      by (simp add: seed_def)
  qed
  ultimately show ?thesis by (simp add: sched_inv_def seed_def)
qed

lemma acct_inv_seed:
  assumes "distinct vl"
  shows "acct_inv vl (seed sub vl K)"
proof -
  have "distinct (keys [] @ take K vl)" using assms by (simp add: keys_def)
  from keys_fold_dict_set [OF this]
  have "keys (in_progress (seed sub vl K)) = take K vl" by (simp add: seed_def keys_def)
  moreover have "mset (take K vl) + mset (drop K vl) = mset vl"
    by (metis append_take_drop_id mset_append)
  ultimately show ?thesis by (simp add: acct_inv_def seed_def)
qed

lemma main_loop_preserves:
  assumes step: "\<And>s ob s'. P s \<Longrightarrow> loop_iteration sub ob s = Inr s' \<Longrightarrow> P s'"
  shows "P st \<Longrightarrow> main_loop sub obs st = Some (Inr st') \<Longrightarrow> P st' \<and> in_progress st' = []"
proof (induction obs arbitrary: st)
  case Nil
  then show ?case by (auto split: if_splits)
next
  case (Cons ob obs)
  show ?case
  proof (cases "in_progress st = []")
    case True
    then show ?thesis using Cons.prems by simp
  next
    case False
    then obtain s1 where it: "loop_iteration sub ob st = Inr s1"
      and rest: "main_loop sub obs s1 = Some (Inr st')"
      using Cons.prems(2) by (auto split: sum.splits)
    from Cons.IH [OF step [OF Cons.prems(1) it] rest] show ?thesis .
  qed
qed

lemma loop_states_preserve:
  assumes step: "\<And>s ob s'. P s \<Longrightarrow> loop_iteration sub ob s = Inr s' \<Longrightarrow> P s'"
  shows "P st \<Longrightarrow> \<forall>s \<in> set (loop_states sub obs st). P s"
proof (induction obs arbitrary: st)
  case Nil
  then show ?case by simp
next
  case (Cons ob obs)
  show ?case
  proof (cases "loop_iteration sub ob st")
    case (Inl e)
    then show ?thesis using Cons.prems by simp
  next
    case (Inr s1)
    then show ?thesis
      using Cons.prems Cons.IH [OF step [OF Cons.prems Inr]] by simp
  qed
qed

section \<open>When the loop ends\<close>

lemma some_done_positive:
  "\<exists>v \<in> set xs. ob v \<noteq> NotDone \<Longrightarrow> 0 < length [v \<leftarrow> xs. ob v \<noteq> NotDone]"
  by (induction xs) auto

lemma loop_iteration_measure:
  assumes it: "loop_iteration sub ob st = Inr st'"
  shows "length (in_progress st') + length (remaining_volumes st')
           + length [v \<leftarrow> keys (in_progress st). ob v \<noteq> NotDone]
           \<le> length (in_progress st) + length (remaining_volumes st)"
proof -
  note c = loop_iteration_closed [OF it]
  let ?n = "length [v \<leftarrow> keys (in_progress st). ob v \<noteq> NotDone]"
  let ?keep = "[kv \<leftarrow> in_progress st. ob (fst kv) = NotDone]"
  have "length (in_progress st') \<le> length ?keep + length (take ?n (remaining_volumes st))"
    using c(1) length_fold_dict_set [of sub "take ?n (remaining_volumes st)" ?keep] by simp
  moreover have "length (take ?n (remaining_volumes st)) + length (remaining_volumes st')
      = length (remaining_volumes st)"
    using c(2) by simp
  moreover have "?n + length ?keep = length (in_progress st)"
    by (rule length_done_notdone)
  ultimately show ?thesis by linarith
qed

lemma main_loop_ends:
  "\<not> seen_raise sub obs st \<Longrightarrow>
   length (in_progress st) + length (remaining_volumes st) \<le> seen_done sub obs st \<Longrightarrow>
   \<exists>st'. main_loop sub obs st = Some (Inr st')"
proof (induction obs arbitrary: st)
  case Nil
  then show ?case by simp
next
  case (Cons ob obs)
  show ?case
  proof (cases "in_progress st = []")
    case True
    then show ?thesis by simp
  next
    case False
    then obtain s1 where it: "loop_iteration sub ob st = Inr s1"
      and nr: "\<not> seen_raise sub obs s1"
      using Cons.prems(1) by (auto split: sum.splits)
    have "seen_done sub (ob # obs) st
        = length [v \<leftarrow> keys (in_progress st). ob v \<noteq> NotDone] + seen_done sub obs s1"
      using False it by simp
    then have "length (in_progress s1) + length (remaining_volumes s1) \<le> seen_done sub obs s1"
      using loop_iteration_measure [OF it] Cons.prems(2) by linarith
    from Cons.IH [OF nr this] show ?thesis using False it by simp
  qed
qed

lemma main_loop_ended:
  "main_loop sub obs st = Some (Inr st') \<Longrightarrow>
   \<not> seen_raise sub obs st
   \<and> length (completed_volumes st') = length (completed_volumes st) + seen_done sub obs st"
proof (induction obs arbitrary: st)
  case Nil
  then show ?case by (auto split: if_splits)
next
  case (Cons ob obs)
  show ?case
  proof (cases "in_progress st = []")
    case True
    then show ?thesis using Cons.prems by simp
  next
    case False
    then obtain s1 where it: "loop_iteration sub ob st = Inr s1"
      and rest: "main_loop sub obs s1 = Some (Inr st')"
      using Cons.prems by (auto split: sum.splits)
    have "length (completed_volumes s1)
        = length (completed_volumes st) + length [v \<leftarrow> keys (in_progress st). ob v \<noteq> NotDone]"
      using loop_iteration_closed(4) [OF it] by simp
    then show ?thesis
      using Cons.IH [OF rest] False it by simp
  qed
qed

lemma c_volume_submit: "map c_volume (map (submit d a w) xs) = xs"
  by (induction xs) (simp_all add: submit_def)

lemma check_futures_none_done:
  "\<forall>v \<in> set (keys items). ob v = NotDone \<Longrightarrow> check_futures ob items st now = Inr (st, now)"
proof (induction items)
  case Nil
  then show ?case by simp
next
  case (Cons a items)
  obtain vol fut where a: "a = (vol, fut)" by (cases a)
  then show ?case using Cons by (simp add: keys_def)
qed

lemma loop_iteration_none_done:
  "\<forall>v \<in> set (keys (in_progress st)). ob v = NotDone \<Longrightarrow> loop_iteration sub ob st = Inr st"
  by (simp add: loop_iteration_def check_futures_none_done)

lemma set_keys_fold_dict_set:
  "set (keys (fold (\<lambda>v d. dict_set v (sub v) d) xs d)) = set (keys d) \<union> set xs"
  by (induction xs arbitrary: d) (auto simp: keys_dict_set)

lemma sched_inv_states:
  assumes "0 < max_concurrent"
    and "st \<in> set (scheduler_states vl dest max_concurrent ca cw obs)"
  shows "sched_inv (submit dest ca cw) (nat max_concurrent) vl st"
proof -
  have "0 < nat max_concurrent" using assms(1) by simp
  then have "sched_inv (submit dest ca cw) (nat max_concurrent) vl
      (seed (submit dest ca cw) vl (nat max_concurrent))"
    by (rule sched_inv_seed)
  then have "\<forall>s \<in> set (loop_states (submit dest ca cw) obs
      (seed (submit dest ca cw) vl (nat max_concurrent))).
        sched_inv (submit dest ca cw) (nat max_concurrent) vl s"
    by (rule loop_states_preserve [rotated]) (rule sched_inv_step)
  then show ?thesis using assms(2) by (simp add: scheduler_states_def Let_def)
qed

lemma finished_run:
  assumes "process_volume_list health obs vl dest mc ca cw timeout ign
             = Some (Inr (calls, Finished r))"
  shows "0 < mc \<and> (\<exists>st. main_loop (submit dest ca cw) obs (seed (submit dest ca cw) vl (nat mc))
                        = Some (Inr st)
            \<and> calls = submitted st \<and> total_volumes r = length vl
            \<and> succeeded r = success_count st \<and> failed r = failed_volumes st
            \<and> completed r = completed_volumes st)"
  using assms
  by (auto simp: process_volume_list_def Let_def split: if_splits option.splits sum.splits)

lemma final_state:
  assumes "0 < mc"
    and "main_loop (submit dest ca cw) obs (seed (submit dest ca cw) vl (nat mc)) = Some (Inr st)"
  shows "sched_inv (submit dest ca cw) (nat mc) vl st \<and> in_progress st = []"
proof -
  have "0 < nat mc" using assms(1) by simp
  then have "sched_inv (submit dest ca cw) (nat mc) vl (seed (submit dest ca cw) vl (nat mc))"
    by (rule sched_inv_seed)
  from main_loop_preserves [of "sched_inv (submit dest ca cw) (nat mc) vl", OF sched_inv_step this assms(2)]
  show ?thesis .
qed

lemma final_state_acct:
  assumes "distinct vl"
    and "main_loop sub obs (seed sub vl K) = Some (Inr st)"
  shows "acct_inv vl st"
proof -
  have "acct_inv vl (seed sub vl K)" using assms(1) by (rule acct_inv_seed)
  from main_loop_preserves [of "acct_inv vl", OF acct_inv_step [OF assms(1)] this assms(2)]
  show ?thesis by simp
qed

section \<open>Accounting of a finished run\<close>

text \<open>
  C7. When a run over a list without repetition reaches its final report, the submitted
  calls are those of the list, one for each target and in list order (no target is
  dispatched twice); the completed volumes are the targets, each once; the failed ones are
  among them; the succeeded count and the number of failed volumes add up to the number of
  targets; and the value returned is true exactly when the succeeded count is the number
  of targets, that is, when nothing failed.
\<close>
theorem every_target_one_outcome:
  assumes "distinct vl"
    and "process_volume_list health obs vl dest mc ca cw timeout ign
           = Some (Inr (calls, Finished r))"
  shows "map c_volume calls = vl
     \<and> mset (completed r) = mset vl
     \<and> mset (failed r) \<subseteq># mset (completed r)
     \<and> succeeded r + length (failed r) = length vl
     \<and> total_volumes r = length vl
     \<and> (returned (Finished r) \<longleftrightarrow> succeeded r = length vl)
     \<and> (returned (Finished r) \<longleftrightarrow> failed r = [])"
proof -
  from finished_run [OF assms(2)] obtain st where mc: "0 < mc"
    and ml: "main_loop (submit dest ca cw) obs (seed (submit dest ca cw) vl (nat mc)) = Some (Inr st)"
    and r: "calls = submitted st" "total_volumes r = length vl" "succeeded r = success_count st"
      "failed r = failed_volumes st" "completed r = completed_volumes st"
    by blast
  from final_state [OF mc ml] have inv: "sched_inv (submit dest ca cw) (nat mc) vl st"
    and emp: "in_progress st = []" by simp_all
  have rem: "remaining_volumes st = []" using inv emp by (simp add: sched_inv_def)
  have "submitted st = map (submit dest ca cw) vl"
    using inv rem by (simp add: sched_inv_def)
  then have a: "map c_volume calls = vl" by (simp only: r(1) c_volume_submit)
  have b: "mset (completed r) = mset vl"
    using final_state_acct [OF assms(1) ml] emp rem r(5) by (simp add: acct_inv_def keys_def)
  then have "length (completed r) = length vl" by (metis size_mset)
  then have d: "succeeded r + length (failed r) = length vl"
    using inv r(3,4,5) by (simp add: sched_inv_def)
  have c: "mset (failed r) \<subseteq># mset (completed r)"
    using inv r(4,5) by (simp add: sched_inv_def)
  have e: "returned (Finished r) \<longleftrightarrow> succeeded r = length vl" using r(2) by simp
  have f: "returned (Finished r) \<longleftrightarrow> failed r = []" using e d by auto
  show ?thesis using a b c d r(2) e f by blast
qed

theorem every_target_one_outcome_witness:
  "distinct [''v1'', ''v2'', ''v3'']
   \<and> process_volume_list Completed
        [\<lambda>v. if v = ''v1'' then Returned True else NotDone, \<lambda>v. Returned False]
        [''v1'', ''v2'', ''v3''] ''aggr1'' 2 ''retry'' 30 86400 False
      = Some (Inr (map (submit ''aggr1'' ''retry'' 30) [''v1'', ''v2'', ''v3''],
          Finished \<lparr>total_volumes = 3, succeeded = 1, failed = [''v2'', ''v3''],
                    completed = [''v1'', ''v2'', ''v3'']\<rparr>))
   \<and> map c_volume (map (submit ''aggr1'' ''retry'' 30) [''v1'', ''v2'', ''v3''])
      = [''v1'', ''v2'', ''v3'']
   \<and> (1::nat) + length [''v2'', ''v3''] = length [''v1'', ''v2'', ''v3'']
   \<and> \<not> returned (Finished \<lparr>total_volumes = 3, succeeded = 1, failed = [''v2'', ''v3''],
                    completed = [''v1'', ''v2'', ''v3'']\<rparr>)"
proof -
  have d: "distinct [''v1'', ''v2'', ''v3'']" by simp
  have run: "process_volume_list Completed
        [\<lambda>v. if v = ''v1'' then Returned True else NotDone, \<lambda>v. Returned False]
        [''v1'', ''v2'', ''v3''] ''aggr1'' 2 ''retry'' 30 86400 False
      = Some (Inr (map (submit ''aggr1'' ''retry'' 30) [''v1'', ''v2'', ''v3''],
          Finished \<lparr>total_volumes = 3, succeeded = 1, failed = [''v2'', ''v3''],
                    completed = [''v1'', ''v2'', ''v3'']\<rparr>))"
    by (simp add: process_volume_list_def check_destination_aggr_status_def seed_def
        loop_iteration_def submit_def dict_del_def)
  show ?thesis
    using d run every_target_one_outcome [OF d run] by simp
qed

section \<open>The bound on concurrent moves\<close>

lemma length_seed: "length (in_progress (seed sub vl j)) \<le> j"
proof -
  have "length (in_progress (seed sub vl j)) \<le> length ([]::(volume \<times> call) list) + length (take j vl)"
    unfolding seed_def using length_fold_dict_set [of sub "take j vl" "[]"] by simp
  then show ?thesis by simp
qed

lemma check_prefix_bound:
  assumes "check_futures ob (take j (in_progress st)) st [] = Inr (st1, cn)"
  shows "length (in_progress st1) \<le> length (in_progress st)"
  using check_futures_closed [OF assms] by simp

lemma refill_prefix_bound:
  assumes "check_futures ob (in_progress st) st [] = Inr (st1, cn)"
  shows "length (in_progress (refill sub (take j cn) st1)) \<le> length (in_progress st)"
proof -
  note c = check_futures_closed [OF assms]
  have ip1: "in_progress st1 = [kv \<leftarrow> in_progress st. ob (fst kv) = NotDone]"
  proof -
    have "in_progress st1 =
        filter (\<lambda>kv. fst kv \<notin> set [v \<leftarrow> keys (in_progress st). ob v \<noteq> NotDone]) (in_progress st)"
      using c by simp
    also have "\<dots> = [kv \<leftarrow> in_progress st. ob (fst kv) = NotDone]"
      by (rule filter_cong) (auto simp: keys_def)
    finally show ?thesis .
  qed
  have cn: "length cn = length [v \<leftarrow> keys (in_progress st). ob v \<noteq> NotDone]"
    using c by simp
  have "length (in_progress (refill sub (take j cn) st1))
      \<le> length (in_progress st1) + length (take (length (take j cn)) (remaining_volumes st1))"
    using refill_closed [of sub "take j cn" st1]
      length_fold_dict_set [of sub "take (length (take j cn)) (remaining_volumes st1)" "in_progress st1"]
    by simp
  also have "\<dots> \<le> length (in_progress st1) + length cn" by simp
  also have "\<dots> = length (in_progress st)"
    using ip1 cn length_done_notdone [of ob "in_progress st"] by simp
  finally show ?thesis .
qed

lemma submitted_growth:
  assumes "loop_iteration sub ob st = Inr st'"
  shows "length (submitted st')
      \<le> length (submitted st) + length [v \<leftarrow> keys (in_progress st). ob v \<noteq> NotDone]"
  using loop_iteration_closed(3) [OF assms] by simp

text \<open>
  C4. In a run with \<open>max_concurrent\<close> = K > 0, at the head of every turn of the main
  loop \<open>in_progress\<close> holds at most K futures. The same bound holds in between: after
  each submission of the initial batch, after any number of entries of the snapshot have
  been looked at, and after any number of the refilling submissions of the turn. The
  initial batch submits the first K targets and no more; a turn submits at most as many
  new targets as it has found futures done, and a turn that finds none done leaves the
  state as it is, so the target after the first K is not dispatched before a job in
  progress has ended.
\<close>

theorem in_progress_bounded:
  assumes "0 < max_concurrent"
    and "st \<in> set (scheduler_states vl dest max_concurrent ca cw obs)"
  shows "length (in_progress st) \<le> nat max_concurrent
     \<and> (\<forall>j \<le> nat max_concurrent.
          length (in_progress (seed (submit dest ca cw) vl j)) \<le> nat max_concurrent)
     \<and> (\<forall>ob j st1 cn. check_futures ob (take j (in_progress st)) st [] = Inr (st1, cn)
          \<longrightarrow> length (in_progress st1) \<le> nat max_concurrent)
     \<and> (\<forall>ob j st1 cn. check_futures ob (in_progress st) st [] = Inr (st1, cn)
          \<longrightarrow> length (in_progress (refill (submit dest ca cw) (take j cn) st1)) \<le> nat max_concurrent)
     \<and> submitted (seed (submit dest ca cw) vl (nat max_concurrent))
          = map (submit dest ca cw) (take (nat max_concurrent) vl)
     \<and> (\<forall>ob st'. loop_iteration (submit dest ca cw) ob st = Inr st'
          \<longrightarrow> length (submitted st')
                \<le> length (submitted st) + length [v \<leftarrow> keys (in_progress st). ob v \<noteq> NotDone])
     \<and> (\<forall>ob. (\<forall>v \<in> set (keys (in_progress st)). ob v = NotDone)
          \<longrightarrow> loop_iteration (submit dest ca cw) ob st = Inr st)"
proof -
  have b: "length (in_progress st) \<le> nat max_concurrent"
    using sched_inv_states [OF assms] by (simp add: sched_inv_def)
  have s: "\<forall>j \<le> nat max_concurrent.
          length (in_progress (seed (submit dest ca cw) vl j)) \<le> nat max_concurrent"
    using length_seed [of "submit dest ca cw" vl] by (meson order_trans)
  have c: "\<forall>ob j st1 cn. check_futures ob (take j (in_progress st)) st [] = Inr (st1, cn)
          \<longrightarrow> length (in_progress st1) \<le> nat max_concurrent"
    using check_prefix_bound b by (meson order_trans)
  have r: "\<forall>ob j st1 cn. check_futures ob (in_progress st) st [] = Inr (st1, cn)
          \<longrightarrow> length (in_progress (refill (submit dest ca cw) (take j cn) st1)) \<le> nat max_concurrent"
    using refill_prefix_bound b by (meson order_trans)
  have i: "submitted (seed (submit dest ca cw) vl (nat max_concurrent))
          = map (submit dest ca cw) (take (nat max_concurrent) vl)"
    by (simp add: seed_def)
  have g: "\<forall>ob st'. loop_iteration (submit dest ca cw) ob st = Inr st'
          \<longrightarrow> length (submitted st')
                \<le> length (submitted st) + length [v \<leftarrow> keys (in_progress st). ob v \<noteq> NotDone]"
    using submitted_growth by blast
  have n: "\<forall>ob. (\<forall>v \<in> set (keys (in_progress st)). ob v = NotDone)
          \<longrightarrow> loop_iteration (submit dest ca cw) ob st = Inr st"
    using loop_iteration_none_done by blast
  show ?thesis using b s c r i g n by blast
qed

theorem in_progress_bounded_witness:
  "(0::int) < 2
   \<and> scheduler_states [''v1'', ''v2'', ''v3''] ''aggr1'' 2 ''retry'' 30
        [\<lambda>v. if v = ''v1'' then Returned True else NotDone] ! 1
      \<in> set (scheduler_states [''v1'', ''v2'', ''v3''] ''aggr1'' 2 ''retry'' 30
        [\<lambda>v. if v = ''v1'' then Returned True else NotDone])
   \<and> length (in_progress (scheduler_states [''v1'', ''v2'', ''v3''] ''aggr1'' 2 ''retry'' 30
        [\<lambda>v. if v = ''v1'' then Returned True else NotDone] ! 1)) \<le> nat 2
   \<and> submitted (seed (submit ''aggr1'' ''retry'' 30) [''v1'', ''v2'', ''v3''] (nat 2))
        = map (submit ''aggr1'' ''retry'' 30) (take (nat 2) [''v1'', ''v2'', ''v3''])
   \<and> loop_iteration (submit ''aggr1'' ''retry'' 30) (\<lambda>v. NotDone)
        (scheduler_states [''v1'', ''v2'', ''v3''] ''aggr1'' 2 ''retry'' 30
          [\<lambda>v. if v = ''v1'' then Returned True else NotDone] ! 1)
      = Inr (scheduler_states [''v1'', ''v2'', ''v3''] ''aggr1'' 2 ''retry'' 30
          [\<lambda>v. if v = ''v1'' then Returned True else NotDone] ! 1)"
proof -
  let ?sts = "scheduler_states [''v1'', ''v2'', ''v3''] ''aggr1'' 2 ''retry'' 30
        [\<lambda>v. if v = ''v1'' then Returned True else NotDone]"
  have p: "(0::int) < 2" by simp
  have m: "?sts ! 1 \<in> set ?sts"
    by (simp add: scheduler_states_def seed_def loop_iteration_def submit_def dict_del_def)
  note th = in_progress_bounded [OF p m]
  have a: "length (in_progress (?sts ! 1)) \<le> nat 2"
    using th by (rule conjunct1)
  have b: "submitted (seed (submit ''aggr1'' ''retry'' 30) [''v1'', ''v2'', ''v3''] (nat 2))
        = map (submit ''aggr1'' ''retry'' 30) (take (nat 2) [''v1'', ''v2'', ''v3''])"
    using th by blast
  have "\<forall>ob. (\<forall>v \<in> set (keys (in_progress (?sts ! 1))). ob v = NotDone)
          \<longrightarrow> loop_iteration (submit ''aggr1'' ''retry'' 30) ob (?sts ! 1) = Inr (?sts ! 1)"
    using th by blast
  then have "(\<forall>v \<in> set (keys (in_progress (?sts ! 1))). (\<lambda>v. NotDone) v = NotDone)
          \<longrightarrow> loop_iteration (submit ''aggr1'' ''retry'' 30) (\<lambda>v. NotDone) (?sts ! 1)
              = Inr (?sts ! 1)"
    by (rule spec)
  then have c: "loop_iteration (submit ''aggr1'' ''retry'' 30) (\<lambda>v. NotDone) (?sts ! 1)
      = Inr (?sts ! 1)"
    by simp
  show ?thesis
    using p m a b c by blast
qed

section \<open>The order of dispatch\<close>

text \<open>
  C8. The initial batch submits the first \<open>max_concurrent\<close> elements of the list handed
  to the scheduler, in list order, and leaves the rest waiting in list order. At the head
  of every turn the volumes submitted so far, followed by those waiting, are the list
  itself. A turn that finds n futures done submits the first n waiting volumes (all of
  them when fewer wait), in order, and keeps the others waiting.
\<close>

theorem dispatch_is_fifo:
  assumes "0 < max_concurrent"
    and "st \<in> set (scheduler_states vl dest max_concurrent ca cw obs)"
  shows "map c_volume (submitted (seed (submit dest ca cw) vl (nat max_concurrent)))
          = take (nat max_concurrent) vl
     \<and> remaining_volumes (seed (submit dest ca cw) vl (nat max_concurrent))
          = drop (nat max_concurrent) vl
     \<and> map c_volume (submitted st) @ remaining_volumes st = vl
     \<and> (\<forall>ob st'. loop_iteration (submit dest ca cw) ob st = Inr st' \<longrightarrow>
          map c_volume (submitted st') = map c_volume (submitted st) @
             take (length [v \<leftarrow> keys (in_progress st). ob v \<noteq> NotDone]) (remaining_volumes st)
          \<and> remaining_volumes st' =
             drop (length [v \<leftarrow> keys (in_progress st). ob v \<noteq> NotDone]) (remaining_volumes st))"
proof -
  have a: "map c_volume (submitted (seed (submit dest ca cw) vl (nat max_concurrent)))
          = take (nat max_concurrent) vl"
    by (simp only: seed_def loop_state.simps c_volume_submit)
  have b: "remaining_volumes (seed (submit dest ca cw) vl (nat max_concurrent))
          = drop (nat max_concurrent) vl"
    by (simp add: seed_def)
  have "submitted st @ map (submit dest ca cw) (remaining_volumes st) = map (submit dest ca cw) vl"
    using sched_inv_states [OF assms] by (simp add: sched_inv_def)
  then have "map c_volume (submitted st @ map (submit dest ca cw) (remaining_volumes st))
      = map c_volume (map (submit dest ca cw) vl)" by (rule arg_cong)
  then have c: "map c_volume (submitted st) @ remaining_volumes st = vl"
    by (simp only: map_append c_volume_submit)
  have d: "\<forall>ob st'. loop_iteration (submit dest ca cw) ob st = Inr st' \<longrightarrow>
          map c_volume (submitted st') = map c_volume (submitted st) @
             take (length [v \<leftarrow> keys (in_progress st). ob v \<noteq> NotDone]) (remaining_volumes st)
          \<and> remaining_volumes st' =
             drop (length [v \<leftarrow> keys (in_progress st). ob v \<noteq> NotDone]) (remaining_volumes st)"
  proof (intro allI impI)
    fix ob st'
    assume it: "loop_iteration (submit dest ca cw) ob st = Inr st'"
    have "map c_volume (submitted st') = map c_volume (submitted st) @
        map c_volume (map (submit dest ca cw)
          (take (length [v \<leftarrow> keys (in_progress st). ob v \<noteq> NotDone]) (remaining_volumes st)))"
      by (simp only: loop_iteration_closed(3) [OF it] map_append)
    then show "map c_volume (submitted st') = map c_volume (submitted st) @
             take (length [v \<leftarrow> keys (in_progress st). ob v \<noteq> NotDone]) (remaining_volumes st)
          \<and> remaining_volumes st' =
             drop (length [v \<leftarrow> keys (in_progress st). ob v \<noteq> NotDone]) (remaining_volumes st)"
      using loop_iteration_closed(2) [OF it] by (simp only: c_volume_submit)
  qed
  show ?thesis using a b c d by blast
qed

theorem dispatch_is_fifo_witness:
  "(0::int) < 2
   \<and> scheduler_states [''v1'', ''v2'', ''v3''] ''aggr1'' 2 ''retry'' 30
        [\<lambda>v. if v = ''v2'' then Returned True else NotDone] ! 0
      \<in> set (scheduler_states [''v1'', ''v2'', ''v3''] ''aggr1'' 2 ''retry'' 30
        [\<lambda>v. if v = ''v2'' then Returned True else NotDone])
   \<and> map c_volume (submitted (scheduler_states [''v1'', ''v2'', ''v3''] ''aggr1'' 2 ''retry'' 30
        [\<lambda>v. if v = ''v2'' then Returned True else NotDone] ! 0))
      @ remaining_volumes (scheduler_states [''v1'', ''v2'', ''v3''] ''aggr1'' 2 ''retry'' 30
        [\<lambda>v. if v = ''v2'' then Returned True else NotDone] ! 0)
      = [''v1'', ''v2'', ''v3'']
   \<and> map c_volume (submitted (seed (submit ''aggr1'' ''retry'' 30) [''v1'', ''v2'', ''v3''] (nat 2)))
      = take (nat 2) [''v1'', ''v2'', ''v3'']
   \<and> map c_volume (submitted (scheduler_states [''v1'', ''v2'', ''v3''] ''aggr1'' 2 ''retry'' 30
        [\<lambda>v. if v = ''v2'' then Returned True else NotDone] ! 1))
      = [''v1'', ''v2'', ''v3'']"
proof -
  let ?ob = "\<lambda>v. if v = ''v2'' then Returned True else NotDone"
  let ?sub = "submit ''aggr1'' ''retry'' 30"
  let ?sts = "scheduler_states [''v1'', ''v2'', ''v3''] ''aggr1'' 2 ''retry'' 30 [?ob]"
  have p: "(0::int) < 2" by simp
  have sts: "?sts = [seed ?sub [''v1'', ''v2'', ''v3''] (nat 2),
      \<lparr>in_progress = [(''v1'', ?sub ''v1''), (''v3'', ?sub ''v3'')], remaining_volumes = [],
       success_count = 1, failed_volumes = [], completed_volumes = [''v2''],
       submitted = [?sub ''v1'', ?sub ''v2'', ?sub ''v3'']\<rparr>]"
    by (simp add: scheduler_states_def Let_def seed_def loop_iteration_def dict_del_def)
  have m: "?sts ! 0 \<in> set ?sts" by (simp add: sts)
  have it: "loop_iteration ?sub ?ob (?sts ! 0) = Inr (?sts ! 1)"
    by (simp add: sts seed_def loop_iteration_def dict_del_def)
  have n: "length [v \<leftarrow> keys (in_progress (?sts ! 0)). ?ob v \<noteq> NotDone] = 1"
    by (simp add: sts seed_def keys_def)
  have r: "remaining_volumes (?sts ! 0) = [''v3'']"
    by (simp add: sts seed_def)
  have s0: "map c_volume (submitted (?sts ! 0)) = [''v1'', ''v2'']"
    by (simp add: sts seed_def submit_def)
  note th = dispatch_is_fifo [OF p m]
  have a: "map c_volume (submitted (?sts ! 0)) @ remaining_volumes (?sts ! 0) = [''v1'', ''v2'', ''v3'']"
    using th by blast
  have b: "map c_volume (submitted (seed ?sub [''v1'', ''v2'', ''v3''] (nat 2)))
      = take (nat 2) [''v1'', ''v2'', ''v3'']"
    using th by blast
  have "map c_volume (submitted (?sts ! 1)) = map c_volume (submitted (?sts ! 0)) @
      take (length [v \<leftarrow> keys (in_progress (?sts ! 0)). ?ob v \<noteq> NotDone]) (remaining_volumes (?sts ! 0))"
    using th it by blast
  then have c: "map c_volume (submitted (?sts ! 1)) = [''v1'', ''v2'', ''v3'']"
    by (simp only: n r s0) simp
  show ?thesis
    using p m a b c by blast
qed

section \<open>A target whose start fails\<close>

lemma acct_inv_states:
  assumes "distinct vl"
    and "st \<in> set (scheduler_states vl dest max_concurrent ca cw obs)"
  shows "acct_inv vl st"
proof -
  have "acct_inv vl (seed (submit dest ca cw) vl (nat max_concurrent))"
    using assms(1) by (rule acct_inv_seed)
  then have "\<forall>s \<in> set (loop_states (submit dest ca cw) obs
      (seed (submit dest ca cw) vl (nat max_concurrent))). acct_inv vl s"
    by (rule loop_states_preserve [rotated]) (rule acct_inv_step [OF assms(1)])
  then show ?thesis using assms(2) by (simp add: scheduler_states_def Let_def)
qed

lemma failed_start_worker:
  assumes "initiate_volume_move_cli cp vol dest ca cw = StartFailed msg"
  shows "future_result cp (submit dest ca cw vol) m
           = Some (Inr (False, m\<lparr>move_results := (move_results m)(vol \<mapsto> False)\<rparr>))"
  using assms by (simp add: future_result_def submit_def process_volume_move_def)

lemma seen_failed_recorded:
  assumes it: "loop_iteration sub ob st = Inr st'"
    and slot: "vol \<in> set (keys (in_progress st))"
    and seen: "ob vol = Returned False"
  shows "vol \<in> set (failed_volumes st') \<and> vol \<in> set (completed_volumes st')"
  using loop_iteration_closed(4,5) [OF it] slot seen by simp

lemma next_takes_slot:
  assumes it: "loop_iteration sub ob st = Inr st'"
    and slot: "vol \<in> set (keys (in_progress st))"
    and seen: "ob vol \<noteq> NotDone"
    and nxt: "remaining_volumes st = next_vol # rest"
  shows "next_vol \<in> set (keys (in_progress st'))
     \<and> take 1 (drop (length (submitted st)) (submitted st')) = [sub next_vol]"
proof -
  let ?n = "length [v \<leftarrow> keys (in_progress st). ob v \<noteq> NotDone]"
  have "0 < ?n" using slot seen by (intro some_done_positive) blast
  then obtain k where k: "?n = Suc k" by (cases ?n) auto
  have t: "take ?n (remaining_volumes st) = next_vol # take k rest"
    using nxt k by simp
  have "next_vol \<in> set (keys (in_progress st'))"
    using loop_iteration_closed(1) [OF it] t
      set_keys_fold_dict_set [of sub "take ?n (remaining_volumes st)"
        "[kv \<leftarrow> in_progress st. ob (fst kv) = NotDone]"]
    by simp
  moreover have "take 1 (drop (length (submitted st)) (submitted st')) = [sub next_vol]"
    using loop_iteration_closed(3) [OF it] t by simp
  ultimately show ?thesis by simp
qed

lemma completed_not_in_progress:
  assumes "distinct vl" and "acct_inv vl st" and "vol \<in> set (completed_volumes st)"
  shows "vol \<notin> set (keys (in_progress st))"
proof -
  have "mset (keys (in_progress st) @ completed_volumes st @ remaining_volumes st) = mset vl"
    using assms(2) by (simp add: acct_inv_def add.assoc)
  then have "distinct (keys (in_progress st) @ completed_volumes st @ remaining_volumes st)"
    using assms(1) by (metis mset_eq_imp_distinct_iff)
  then show ?thesis using assms(3) by auto
qed

lemma finished_targets:
  assumes "distinct vl" and "0 < mc"
    and "main_loop (submit dest ca cw) obs (seed (submit dest ca cw) vl (nat mc)) = Some (Inr st)"
  shows "map c_volume (submitted st) = vl \<and> mset (completed_volumes st) = mset vl"
proof -
  from final_state [OF assms(2,3)] have inv: "sched_inv (submit dest ca cw) (nat mc) vl st"
    and emp: "in_progress st = []" by simp_all
  have rem: "remaining_volumes st = []" using inv emp by (simp add: sched_inv_def)
  have "submitted st = map (submit dest ca cw) vl"
    using inv rem by (simp add: sched_inv_def)
  then have "map c_volume (submitted st) = vl" by (simp only: c_volume_submit)
  moreover have "mset (completed_volumes st) = mset vl"
    using final_state_acct [OF assms(1,3)] emp rem by (simp add: acct_inv_def keys_def)
  ultimately show ?thesis by simp
qed

lemma seed_holds:
  "vol \<in> set (take K vl) \<Longrightarrow> vol \<in> set (keys (in_progress (seed sub vl K)))"
  using set_keys_fold_dict_set [of sub "take K vl" "[]"] by (simp add: seed_def)

lemma dispatched_holds:
  assumes it: "loop_iteration sub ob st = Inr st'"
    and new: "vol \<in> set (take (length [v \<leftarrow> keys (in_progress st). ob v \<noteq> NotDone])
                (remaining_volumes st))"
  shows "vol \<in> set (keys (in_progress st'))"
  using loop_iteration_closed(1) [OF it] new
    set_keys_fold_dict_set [of sub
      "take (length [v \<leftarrow> keys (in_progress st). ob v \<noteq> NotDone]) (remaining_volumes st)"
      "[kv \<leftarrow> in_progress st. ob (fst kv) = NotDone]"]
  by simp

lemma kept_while_not_done:
  assumes it: "loop_iteration sub ob st = Inr st'"
    and slot: "vol \<in> set (keys (in_progress st))"
    and nd: "ob vol = NotDone"
  shows "vol \<in> set (keys (in_progress st'))
     \<and> (vol \<in> set (failed_volumes st') \<longleftrightarrow> vol \<in> set (failed_volumes st))
     \<and> (vol \<in> set (completed_volumes st') \<longleftrightarrow> vol \<in> set (completed_volumes st))"
proof -
  have "vol \<in> set (keys [kv \<leftarrow> in_progress st. ob (fst kv) = NotDone])"
    using slot nd keys_filter [of "\<lambda>v. ob v = NotDone" "in_progress st"] by simp
  then have "vol \<in> set (keys (in_progress st'))"
    using loop_iteration_closed(1) [OF it]
      set_keys_fold_dict_set [of sub
        "take (length [v \<leftarrow> keys (in_progress st). ob v \<noteq> NotDone]) (remaining_volumes st)"
        "[kv \<leftarrow> in_progress st. ob (fst kv) = NotDone]"]
    by simp
  then show ?thesis
    using loop_iteration_closed(4,5) [OF it] nd by simp
qed

lemma dispatched_unseen_in_progress:
  assumes d: "distinct vl" and mc: "0 < max_concurrent"
    and st: "st \<in> set (scheduler_states vl dest max_concurrent ca cw obs)"
    and sub: "vol \<in> set (map c_volume (submitted st))"
    and un: "vol \<notin> set (completed_volumes st)"
  shows "vol \<in> set (keys (in_progress st)) \<and> vol \<notin> set (failed_volumes st)"
proof -
  note inv = sched_inv_states [OF mc st]
  have "submitted st @ map (submit dest ca cw) (remaining_volumes st) = map (submit dest ca cw) vl"
    using inv by (simp add: sched_inv_def)
  then have "map c_volume (submitted st @ map (submit dest ca cw) (remaining_volumes st))
      = map c_volume (map (submit dest ca cw) vl)" by (rule arg_cong)
  then have fifo: "map c_volume (submitted st) @ remaining_volumes st = vl"
    by (simp only: map_append c_volume_submit)
  then have "distinct (map c_volume (submitted st) @ remaining_volumes st)"
    using d by simp
  then have nr: "vol \<notin> set (remaining_volumes st)" using sub by auto
  have "vol \<in> set vl" using fifo sub by (metis UnCI set_append)
  then have "vol \<in># mset (keys (in_progress st)) + mset (completed_volumes st)
      + mset (remaining_volumes st)"
    using acct_inv_states [OF d st] by (simp add: acct_inv_def)
  then have a: "vol \<in> set (keys (in_progress st))" using un nr by auto
  have "mset (failed_volumes st) \<subseteq># mset (completed_volumes st)"
    using inv by (simp add: sched_inv_def)
  then have "set (failed_volumes st) \<subseteq> set (completed_volumes st)"
    by (metis set_mset_mono set_mset_mset)
  then show ?thesis using a un by auto
qed

lemma run_ends_iff:
  assumes d: "distinct vl" and mc: "0 < mc"
  shows "(\<exists>st. main_loop (submit dest ca cw) obs (seed (submit dest ca cw) vl (nat mc))
               = Some (Inr st))
     \<longleftrightarrow> \<not> seen_raise (submit dest ca cw) obs (seed (submit dest ca cw) vl (nat mc))
          \<and> length vl \<le> seen_done (submit dest ca cw) obs (seed (submit dest ca cw) vl (nat mc))"
proof
  assume "\<exists>st. main_loop (submit dest ca cw) obs (seed (submit dest ca cw) vl (nat mc))
               = Some (Inr st)"
  then obtain st where ml: "main_loop (submit dest ca cw) obs
      (seed (submit dest ca cw) vl (nat mc)) = Some (Inr st)" by blast
  have "mset (completed_volumes st) = mset vl"
    using finished_targets [OF d mc ml] by simp
  then have "length (completed_volumes st) = length vl" by (metis size_mset)
  then show "\<not> seen_raise (submit dest ca cw) obs (seed (submit dest ca cw) vl (nat mc))
          \<and> length vl \<le> seen_done (submit dest ca cw) obs (seed (submit dest ca cw) vl (nat mc))"
    using main_loop_ended [OF ml] by (simp add: seed_def)
next
  assume h: "\<not> seen_raise (submit dest ca cw) obs (seed (submit dest ca cw) vl (nat mc))
          \<and> length vl \<le> seen_done (submit dest ca cw) obs (seed (submit dest ca cw) vl (nat mc))"
  have "length (in_progress (seed (submit dest ca cw) vl (nat mc))) \<le> length (take (nat mc) vl)"
    using length_fold_dict_set [of "submit dest ca cw" "take (nat mc) vl" "[]"]
    by (simp add: seed_def)
  moreover have "length (remaining_volumes (seed (submit dest ca cw) vl (nat mc)))
      = length (drop (nat mc) vl)"
    by (simp add: seed_def)
  moreover have "length (take (nat mc) vl) + length (drop (nat mc) vl) = length vl"
    by simp
  ultimately have "length (in_progress (seed (submit dest ca cw) vl (nat mc)))
      + length (remaining_volumes (seed (submit dest ca cw) vl (nat mc)))
      \<le> seen_done (submit dest ca cw) obs (seed (submit dest ca cw) vl (nat mc))"
    using h by linarith
  with h show "\<exists>st. main_loop (submit dest ca cw) obs (seed (submit dest ca cw) vl (nat mc))
               = Some (Inr st)"
    by (intro main_loop_ends) simp_all
qed

lemma run_finishes_iff:
  assumes d: "distinct vl" and mc: "0 < mc"
    and ok: "ign \<or> check_destination_aggr_status health dest"
  shows "(\<exists>calls r. process_volume_list health obs vl dest mc ca cw timeout ign
                      = Some (Inr (calls, Finished r)))
     \<longleftrightarrow> \<not> seen_raise (submit dest ca cw) obs (seed (submit dest ca cw) vl (nat mc))
          \<and> length vl \<le> seen_done (submit dest ca cw) obs (seed (submit dest ca cw) vl (nat mc))"
proof -
  have "(\<exists>calls r. process_volume_list health obs vl dest mc ca cw timeout ign
                      = Some (Inr (calls, Finished r)))
     \<longleftrightarrow> (\<exists>st. main_loop (submit dest ca cw) obs (seed (submit dest ca cw) vl (nat mc))
               = Some (Inr st))"
    using mc ok
    by (auto simp: process_volume_list_def Let_def split: option.splits sum.splits)
  then show ?thesis using run_ends_iff [OF d mc] by simp
qed

lemma finished_run_targets:
  assumes d: "distinct vl"
    and run: "process_volume_list health obs vl dest mc ca cw timeout ign
                = Some (Inr (calls, Finished r))"
  shows "map c_volume calls = vl \<and> mset (completed r) = mset vl"
proof -
  from finished_run [OF run] obtain st where mc: "0 < mc"
    and ml: "main_loop (submit dest ca cw) obs (seed (submit dest ca cw) vl (nat mc)) = Some (Inr st)"
    and r: "calls = submitted st" "completed r = completed_volumes st"
    by blast
  show ?thesis using finished_targets [OF d mc ml] r by simp
qed

lemma turn_without_raise:
  "\<forall>v \<in> set (keys (in_progress st)). \<forall>e. ob v \<noteq> Raised e
   \<Longrightarrow> \<exists>st'. loop_iteration sub ob st = Inr st'"
proof -
  assume "\<forall>v \<in> set (keys (in_progress st)). \<forall>e. ob v \<noteq> Raised e"
  from check_futures_total [OF this, of st "[]"]
  obtain r where "check_futures ob (in_progress st) st [] = Inr r" by blast
  then show ?thesis by (cases r) (simp add: loop_iteration_def)
qed

text \<open>
  C3, as the code has it. A target is submitted to the pool, and stored in
  \<open>in_progress\<close>, before its move is started. So a target whose start fails holds an
  entry of \<open>in_progress\<close> like any other: it gets the entry when it is dispatched, in
  the initial batch or in a later turn, and keeps it through every turn that finds its
  future not done, without entering the failed or the completed volumes; in a run over a
  list without repetition, every dispatched target that is not yet completed is in
  \<open>in_progress\<close> and not in the failed list. Its worker returns \<open>False\<close> at once: it
  records \<open>False\<close> in \<open>move_results\<close>, never enters \<open>active_moves\<close> and polls nothing. In
  the turn where the main loop sees that result, the target is appended to the failed and
  to the completed volumes, its entry is removed (the list being without repetition), and
  the first waiting target, if there is one, is submitted and takes an entry in that same
  turn. A turn ends in an error only when a future in progress has raised, so a failed
  start does not end the run. Whenever the run over a list without repetition reaches its
  final report, every target has been dispatched once and completed once, and it reaches
  the report exactly when no turn sees a future that raised and the turns, idle ones among
  them or not, see as many futures done as there are targets.
\<close>

theorem failed_start_holds_slot_until_seen:
  assumes start: "initiate_volume_move_cli cp vol dest ca cw = StartFailed msg"
    and mc: "0 < max_concurrent"
  shows "future_result cp (submit dest ca cw vol) m
           = Some (Inr (False, m\<lparr>move_results := (move_results m)(vol \<mapsto> False)\<rparr>))
     \<and> (vol \<in> set (take (nat max_concurrent) vl)
          \<longrightarrow> vol \<in> set (keys (in_progress (seed (submit dest ca cw) vl (nat max_concurrent)))))
     \<and> (\<forall>st ob st'. loop_iteration (submit dest ca cw) ob st = Inr st'
          \<longrightarrow> vol \<in> set (take (length [v \<leftarrow> keys (in_progress st). ob v \<noteq> NotDone])
                            (remaining_volumes st))
          \<longrightarrow> vol \<in> set (keys (in_progress st')))
     \<and> (\<forall>st ob st'. loop_iteration (submit dest ca cw) ob st = Inr st'
          \<longrightarrow> vol \<in> set (keys (in_progress st)) \<longrightarrow> ob vol = NotDone
          \<longrightarrow> vol \<in> set (keys (in_progress st'))
              \<and> (vol \<in> set (failed_volumes st') \<longleftrightarrow> vol \<in> set (failed_volumes st))
              \<and> (vol \<in> set (completed_volumes st') \<longleftrightarrow> vol \<in> set (completed_volumes st)))
     \<and> (\<forall>st. st \<in> set (scheduler_states vl dest max_concurrent ca cw obs)
          \<longrightarrow> distinct vl \<longrightarrow> vol \<in> set (map c_volume (submitted st))
          \<longrightarrow> vol \<notin> set (completed_volumes st)
          \<longrightarrow> vol \<in> set (keys (in_progress st)) \<and> vol \<notin> set (failed_volumes st))
     \<and> (\<forall>st ob. (\<forall>v \<in> set (keys (in_progress st)). \<forall>e. ob v \<noteq> Raised e)
          \<longrightarrow> (\<exists>st'. loop_iteration (submit dest ca cw) ob st = Inr st'))
     \<and> (\<forall>st ob st'. st \<in> set (scheduler_states vl dest max_concurrent ca cw obs)
           \<longrightarrow> vol \<in> set (keys (in_progress st)) \<longrightarrow> ob vol = Returned False
           \<longrightarrow> loop_iteration (submit dest ca cw) ob st = Inr st'
           \<longrightarrow> vol \<in> set (failed_volumes st') \<and> vol \<in> set (completed_volumes st')
               \<and> (distinct vl \<longrightarrow> vol \<notin> set (keys (in_progress st')))
               \<and> (\<forall>next_vol rest. remaining_volumes st = next_vol # rest
                     \<longrightarrow> next_vol \<in> set (keys (in_progress st'))
                        \<and> take 1 (drop (length (submitted st)) (submitted st'))
                              = [submit dest ca cw next_vol]))
     \<and> (\<forall>calls r. distinct vl
          \<longrightarrow> process_volume_list health obs vl dest max_concurrent ca cw timeout ign
                = Some (Inr (calls, Finished r))
          \<longrightarrow> map c_volume calls = vl \<and> mset (completed r) = mset vl)
     \<and> (distinct vl \<and> (ign \<or> check_destination_aggr_status health dest)
          \<longrightarrow> ((\<exists>calls r. process_volume_list health obs vl dest max_concurrent ca cw timeout ign
                            = Some (Inr (calls, Finished r)))
               \<longleftrightarrow> \<not> seen_raise (submit dest ca cw) obs
                        (seed (submit dest ca cw) vl (nat max_concurrent))
                  \<and> length vl \<le> seen_done (submit dest ca cw) obs
                        (seed (submit dest ca cw) vl (nat max_concurrent))))"
proof -
  have w: "future_result cp (submit dest ca cw vol) m
           = Some (Inr (False, m\<lparr>move_results := (move_results m)(vol \<mapsto> False)\<rparr>))"
    using start by (rule failed_start_worker)
  have a1: "vol \<in> set (take (nat max_concurrent) vl)
          \<longrightarrow> vol \<in> set (keys (in_progress (seed (submit dest ca cw) vl (nat max_concurrent))))"
    using seed_holds by blast
  have a2: "\<forall>st ob st'. loop_iteration (submit dest ca cw) ob st = Inr st'
          \<longrightarrow> vol \<in> set (take (length [v \<leftarrow> keys (in_progress st). ob v \<noteq> NotDone])
                            (remaining_volumes st))
          \<longrightarrow> vol \<in> set (keys (in_progress st'))"
    using dispatched_holds by blast
  have a3: "\<forall>st ob st'. loop_iteration (submit dest ca cw) ob st = Inr st'
          \<longrightarrow> vol \<in> set (keys (in_progress st)) \<longrightarrow> ob vol = NotDone
          \<longrightarrow> vol \<in> set (keys (in_progress st'))
              \<and> (vol \<in> set (failed_volumes st') \<longleftrightarrow> vol \<in> set (failed_volumes st))
              \<and> (vol \<in> set (completed_volumes st') \<longleftrightarrow> vol \<in> set (completed_volumes st))"
    using kept_while_not_done by blast
  have a4: "\<forall>st. st \<in> set (scheduler_states vl dest max_concurrent ca cw obs)
          \<longrightarrow> distinct vl \<longrightarrow> vol \<in> set (map c_volume (submitted st))
          \<longrightarrow> vol \<notin> set (completed_volumes st)
          \<longrightarrow> vol \<in> set (keys (in_progress st)) \<and> vol \<notin> set (failed_volumes st)"
    using dispatched_unseen_in_progress [OF _ mc] by blast
  have nr: "\<forall>st ob. (\<forall>v \<in> set (keys (in_progress st)). \<forall>e. ob v \<noteq> Raised e)
          \<longrightarrow> (\<exists>st'. loop_iteration (submit dest ca cw) ob st = Inr st')"
    using turn_without_raise by blast
  have b: "\<forall>st ob st'. st \<in> set (scheduler_states vl dest max_concurrent ca cw obs)
           \<longrightarrow> vol \<in> set (keys (in_progress st)) \<longrightarrow> ob vol = Returned False
           \<longrightarrow> loop_iteration (submit dest ca cw) ob st = Inr st'
           \<longrightarrow> vol \<in> set (failed_volumes st') \<and> vol \<in> set (completed_volumes st')
               \<and> (distinct vl \<longrightarrow> vol \<notin> set (keys (in_progress st')))
               \<and> (\<forall>next_vol rest. remaining_volumes st = next_vol # rest
                     \<longrightarrow> next_vol \<in> set (keys (in_progress st'))
                        \<and> take 1 (drop (length (submitted st)) (submitted st'))
                              = [submit dest ca cw next_vol])"
  proof (intro allI impI conjI)
    fix st ob st'
    assume st: "st \<in> set (scheduler_states vl dest max_concurrent ca cw obs)"
      and slot: "vol \<in> set (keys (in_progress st))" and seen: "ob vol = Returned False"
      and it: "loop_iteration (submit dest ca cw) ob st = Inr st'"
    note rec = seen_failed_recorded [OF it slot seen]
    show "vol \<in> set (failed_volumes st')" using rec by simp
    show "vol \<in> set (completed_volumes st')" using rec by simp
    {
      assume d: "distinct vl"
      have "acct_inv vl st'"
        using acct_inv_step [OF d acct_inv_states [OF d st] it] .
      then show "vol \<notin> set (keys (in_progress st'))"
        using completed_not_in_progress [OF d] rec by blast
    }
    {
      fix next_vol rest
      assume nxt: "remaining_volumes st = next_vol # rest"
      have nd: "ob vol \<noteq> NotDone" using seen by simp
      note n = next_takes_slot [OF it slot nd nxt]
      show "next_vol \<in> set (keys (in_progress st'))" using n by simp
      show "take 1 (drop (length (submitted st)) (submitted st')) = [submit dest ca cw next_vol]"
        using n by simp
    }
  qed
  have c1: "\<forall>calls r. distinct vl
          \<longrightarrow> process_volume_list health obs vl dest max_concurrent ca cw timeout ign
                = Some (Inr (calls, Finished r))
          \<longrightarrow> map c_volume calls = vl \<and> mset (completed r) = mset vl"
    using finished_run_targets by blast
  have c2: "distinct vl \<and> (ign \<or> check_destination_aggr_status health dest)
          \<longrightarrow> ((\<exists>calls r. process_volume_list health obs vl dest max_concurrent ca cw timeout ign
                            = Some (Inr (calls, Finished r)))
               \<longleftrightarrow> \<not> seen_raise (submit dest ca cw) obs
                        (seed (submit dest ca cw) vl (nat max_concurrent))
                  \<and> length vl \<le> seen_done (submit dest ca cw) obs
                        (seed (submit dest ca cw) vl (nat max_concurrent)))"
    using run_finishes_iff [OF _ mc] by blast
  show ?thesis
    using w a1 a2 a3 a4 nr b c1 c2 by (intro conjI)
qed

theorem failed_start_holds_slot_until_seen_witness:
  "initiate_volume_move_cli
      \<lparr>initiate_volume_move_cli =
          (\<lambda>v d a w. if v = ''volA'' then StartFailed ''rejected'' else Started ''7''),
       wait_start_time = (\<lambda>v. 0), job_polls = (\<lambda>v j. [])\<rparr>
      ''volA'' ''aggr1'' ''retry'' 30 = StartFailed ''rejected''
   \<and> (0::int) < 1
   \<and> future_result
      \<lparr>initiate_volume_move_cli =
          (\<lambda>v d a w. if v = ''volA'' then StartFailed ''rejected'' else Started ''7''),
       wait_start_time = (\<lambda>v. 0), job_polls = (\<lambda>v j. [])\<rparr>
      (submit ''aggr1'' ''retry'' 30 ''volA'')
      \<lparr>active_moves = Map.empty, move_results = Map.empty\<rparr>
      = Some (Inr (False, \<lparr>active_moves = Map.empty, move_results = [''volA'' \<mapsto> False]\<rparr>))
   \<and> ''volA'' \<in> set (keys (in_progress
        (seed (submit ''aggr1'' ''retry'' 30) [''volA'', ''volB''] (nat 1))))
   \<and> ''volA'' \<in> set (keys (in_progress (scheduler_states [''volA'', ''volB''] ''aggr1'' 1 ''retry'' 30
        [\<lambda>v. NotDone, \<lambda>v. if v = ''volA'' then Returned False else NotDone, \<lambda>v. Returned True]
        ! 1)))
   \<and> ''volA'' \<notin> set (failed_volumes (scheduler_states [''volA'', ''volB''] ''aggr1'' 1 ''retry'' 30
        [\<lambda>v. NotDone, \<lambda>v. if v = ''volA'' then Returned False else NotDone, \<lambda>v. Returned True]
        ! 1))
   \<and> ''volA'' \<in> set (failed_volumes (scheduler_states [''volA'', ''volB''] ''aggr1'' 1 ''retry'' 30
        [\<lambda>v. NotDone, \<lambda>v. if v = ''volA'' then Returned False else NotDone, \<lambda>v. Returned True]
        ! 2))
   \<and> ''volA'' \<notin> set (keys (in_progress (scheduler_states [''volA'', ''volB''] ''aggr1'' 1 ''retry'' 30
        [\<lambda>v. NotDone, \<lambda>v. if v = ''volA'' then Returned False else NotDone, \<lambda>v. Returned True]
        ! 2)))
   \<and> ''volB'' \<in> set (keys (in_progress (scheduler_states [''volA'', ''volB''] ''aggr1'' 1 ''retry'' 30
        [\<lambda>v. NotDone, \<lambda>v. if v = ''volA'' then Returned False else NotDone, \<lambda>v. Returned True]
        ! 2)))
   \<and> \<not> seen_raise (submit ''aggr1'' ''retry'' 30)
        [\<lambda>v. NotDone, \<lambda>v. if v = ''volA'' then Returned False else NotDone, \<lambda>v. Returned True]
        (seed (submit ''aggr1'' ''retry'' 30) [''volA'', ''volB''] (nat 1))
   \<and> length [''volA'', ''volB''] \<le> seen_done (submit ''aggr1'' ''retry'' 30)
        [\<lambda>v. NotDone, \<lambda>v. if v = ''volA'' then Returned False else NotDone, \<lambda>v. Returned True]
        (seed (submit ''aggr1'' ''retry'' 30) [''volA'', ''volB''] (nat 1))
   \<and> (\<exists>calls r. process_volume_list Completed
        [\<lambda>v. NotDone, \<lambda>v. if v = ''volA'' then Returned False else NotDone, \<lambda>v. Returned True]
        [''volA'', ''volB''] ''aggr1'' 1 ''retry'' 30 86400 False
          = Some (Inr (calls, Finished r))
        \<and> map c_volume calls = [''volA'', ''volB'']
        \<and> mset (completed r) = mset [''volA'', ''volB''])"
proof -
  let ?cp = "\<lparr>initiate_volume_move_cli =
          (\<lambda>v d a w. if v = ''volA'' then StartFailed ''rejected'' else Started ''7''),
       wait_start_time = (\<lambda>v. 0::real),
       job_polls = (\<lambda>v j. []::(real \<times> poll_response) list)\<rparr>"
  let ?idle = "(\<lambda>v. NotDone) :: observation"
  let ?ob = "\<lambda>v. if v = ''volA'' then Returned False else NotDone"
  let ?obs = "[?idle, ?ob, \<lambda>v. Returned True]"
  let ?sub = "submit ''aggr1'' ''retry'' 30"
  let ?vl = "[''volA'', ''volB'']"
  let ?sts = "scheduler_states ?vl ''aggr1'' 1 ''retry'' 30 ?obs"
  have s: "initiate_volume_move_cli ?cp ''volA'' ''aggr1'' ''retry'' 30 = StartFailed ''rejected''"
    by simp
  have p: "(0::int) < 1" by simp
  have sts: "?sts = [seed ?sub ?vl (nat 1), seed ?sub ?vl (nat 1),
      \<lparr>in_progress = [(''volB'', ?sub ''volB'')], remaining_volumes = [], success_count = 0,
       failed_volumes = [''volA''], completed_volumes = [''volA''],
       submitted = [?sub ''volA'', ?sub ''volB'']\<rparr>,
      \<lparr>in_progress = [], remaining_volumes = [], success_count = 1,
       failed_volumes = [''volA''], completed_volumes = [''volA'', ''volB''],
       submitted = [?sub ''volA'', ?sub ''volB'']\<rparr>]"
    by (simp add: scheduler_states_def Let_def seed_def loop_iteration_def dict_del_def)
  have mem0: "?sts ! 0 \<in> set ?sts" by (simp add: sts)
  have mem1: "?sts ! 1 \<in> set ?sts" by (simp add: sts)
  have slot0: "''volA'' \<in> set (keys (in_progress (?sts ! 0)))"
    by (simp add: sts seed_def keys_def)
  have slot1: "''volA'' \<in> set (keys (in_progress (?sts ! 1)))"
    by (simp add: sts seed_def keys_def)
  have idle: "?idle ''volA'' = NotDone" by simp
  have seen: "?ob ''volA'' = Returned False" by simp
  have it0: "loop_iteration ?sub ?idle (?sts ! 0) = Inr (?sts ! 1)"
    by (simp add: sts seed_def loop_iteration_def dict_del_def)
  have it1: "loop_iteration ?sub ?ob (?sts ! 1) = Inr (?sts ! 2)"
    by (simp add: sts seed_def loop_iteration_def dict_del_def)
  have rem: "remaining_volumes (?sts ! 1) = [''volB'']"
    by (simp add: sts seed_def)
  have nf0: "''volA'' \<notin> set (failed_volumes (?sts ! 0))"
    by (simp add: sts seed_def)
  have batch: "''volA'' \<in> set (take (nat 1) ?vl)" by simp
  have d: "distinct ?vl" by simp
  have hc: "False \<or> check_destination_aggr_status Completed ''aggr1''"
    by (simp add: check_destination_aggr_status_def)
  have nr: "\<not> seen_raise ?sub ?obs (seed ?sub ?vl (nat 1))"
    by (simp add: seed_def loop_iteration_def dict_del_def)
  have sd: "length ?vl \<le> seen_done ?sub ?obs (seed ?sub ?vl (nat 1))"
    by (simp add: seed_def loop_iteration_def dict_del_def keys_def)
  note th = failed_start_holds_slot_until_seen [OF s p,
      of "\<lparr>active_moves = Map.empty, move_results = Map.empty\<rparr>"
         ?vl ?obs Completed 86400 False]
  have w: "future_result ?cp (?sub ''volA'') \<lparr>active_moves = Map.empty, move_results = Map.empty\<rparr>
      = Some (Inr (False, \<lparr>active_moves = Map.empty, move_results = [''volA'' \<mapsto> False]\<rparr>))"
    using th by simp
  have a1: "''volA'' \<in> set (keys (in_progress (seed ?sub ?vl (nat 1))))"
    using th batch by blast
  note k = th [THEN conjunct2, THEN conjunct2, THEN conjunct2, THEN conjunct1,
      THEN spec [where x = "?sts ! 0"], THEN spec [where x = "?idle"],
      THEN spec [where x = "?sts ! 1"], THEN mp, OF it0, THEN mp, OF slot0, THEN mp, OF idle]
  have a3: "''volA'' \<in> set (keys (in_progress (?sts ! 1)))
      \<and> ''volA'' \<notin> set (failed_volumes (?sts ! 1))"
    using k nf0 by blast
  note q = th [THEN conjunct2, THEN conjunct2, THEN conjunct2, THEN conjunct2, THEN conjunct2,
      THEN conjunct2, THEN conjunct1,
      THEN spec [where x = "?sts ! 1"], THEN spec [where x = "?ob"],
      THEN spec [where x = "?sts ! 2"],
      THEN mp, OF mem1, THEN mp, OF slot1, THEN mp, OF seen, THEN mp, OF it1]
  have b: "''volA'' \<in> set (failed_volumes (?sts ! 2))
      \<and> ''volA'' \<notin> set (keys (in_progress (?sts ! 2)))
      \<and> ''volB'' \<in> set (keys (in_progress (?sts ! 2)))"
    using q rem d by blast
  have fin: "\<exists>calls r. process_volume_list Completed ?obs ?vl ''aggr1'' 1 ''retry'' 30 86400 False
          = Some (Inr (calls, Finished r))"
    using th d hc nr sd by blast
  then obtain calls r where run: "process_volume_list Completed ?obs ?vl ''aggr1'' 1 ''retry'' 30
      86400 False = Some (Inr (calls, Finished r))" by blast
  have tg: "map c_volume calls = ?vl \<and> mset (completed r) = mset ?vl"
    using th d run by blast
  have c: "\<exists>calls r. process_volume_list Completed ?obs ?vl ''aggr1'' 1 ''retry'' 30 86400 False
          = Some (Inr (calls, Finished r))
        \<and> map c_volume calls = ?vl \<and> mset (completed r) = mset ?vl"
    by (rule exI [of _ calls], rule exI [of _ r]) (use run tg in simp)
  show ?thesis
    using s p w a1 a3 b nr sd c by (intro conjI) simp_all
qed

text \<open>
  C3 as the specification words it fails: with one slot and the targets \<open>volA\<close>, whose
  start is rejected, and \<open>volB\<close>, \<open>volA\<close> is the one entry of \<open>in_progress\<close> at the head of
  the first two turns while \<open>volB\<close> waits; \<open>volB\<close> is dispatched only in the turn that sees
  the future of \<open>volA\<close> done.
\<close>

theorem failed_start_occupies_slot:
  "future_result
      \<lparr>initiate_volume_move_cli =
          (\<lambda>v d a w. if v = ''volA'' then StartFailed ''rejected'' else Started ''7''),
       wait_start_time = (\<lambda>v. 0), job_polls = (\<lambda>v j. [])\<rparr>
      (submit ''aggr1'' ''retry'' 30 ''volA'')
      \<lparr>active_moves = Map.empty, move_results = Map.empty\<rparr>
      = Some (Inr (False, \<lparr>active_moves = Map.empty, move_results = [''volA'' \<mapsto> False]\<rparr>))
   \<and> map (\<lambda>st. (keys (in_progress st), remaining_volumes st, failed_volumes st))
       (scheduler_states [''volA'', ''volB''] ''aggr1'' 1 ''retry'' 30
          [\<lambda>v. NotDone, \<lambda>v. if v = ''volA'' then Returned False else NotDone])
      = [([''volA''], [''volB''], []), ([''volA''], [''volB''], []), ([''volB''], [], [''volA''])]"
  by (simp add: future_result_def process_volume_move_def scheduler_states_def seed_def
      loop_iteration_def submit_def dict_del_def keys_def)

section \<open>The health check\<close>

lemma finished_calls:
  assumes "process_volume_list health obs vl dest mc ca cw timeout ign
             = Some (Inr (calls, Finished r))"
  shows "calls = map (submit dest ca cw) vl"
proof -
  from finished_run [OF assms] obtain st where mc: "0 < mc"
    and ml: "main_loop (submit dest ca cw) obs (seed (submit dest ca cw) vl (nat mc)) = Some (Inr st)"
    and r: "calls = submitted st"
    by blast
  from final_state [OF mc ml] have inv: "sched_inv (submit dest ca cw) (nat mc) vl st"
    and emp: "in_progress st = []" by simp_all
  have "remaining_volumes st = []" using inv emp by (simp add: sched_inv_def)
  then show ?thesis using inv r by (simp add: sched_inv_def)
qed

text \<open>
  C5, as the code has it. When the bypass flag is not set and the health check reports
  the destination unhealthy, \<open>process_volume_list\<close> returns \<open>False\<close> at once: nothing has
  been submitted and no summary is produced, so no target is counted as failed or as
  succeeded. When the bypass flag is set, dispatch proceeds without the health check
  being consulted: the outcome of the check has no influence, the abort exit is never
  taken, and with a valid pool size the run is the run of the main loop from the initial
  batch, in which the first \<open>max_concurrent\<close> targets have been submitted; when it reaches
  its report every target has been submitted, and for a list without repetition it
  reaches the report exactly when no turn sees a future that raised and the turns see as
  many futures done as there are targets.
\<close>

theorem unhealthy_destination_aborts:
  "(\<not> ign \<and> \<not> check_destination_aggr_status health dest
      \<longrightarrow> process_volume_list health obs vl dest mc ca cw timeout ign
            = Some (Inr ([], AbortedUnhealthy)))
   \<and> returned AbortedUnhealthy = False \<and> summary AbortedUnhealthy = None
   \<and> process_volume_list health obs vl dest mc ca cw timeout True
        = process_volume_list health' obs vl dest mc ca cw timeout True
   \<and> process_volume_list health obs vl dest mc ca cw timeout True
        \<noteq> Some (Inr (calls, AbortedUnhealthy))
   \<and> (0 < mc \<longrightarrow>
        process_volume_list health obs vl dest mc ca cw timeout True
          = (case main_loop (submit dest ca cw) obs (seed (submit dest ca cw) vl (nat mc)) of
               None \<Rightarrow> None
             | Some (Inl e) \<Rightarrow> Some (Inl e)
             | Some (Inr st) \<Rightarrow>
                 Some (Inr (submitted st,
                   Finished \<lparr>total_volumes = length vl, succeeded = success_count st,
                             failed = failed_volumes st, completed = completed_volumes st\<rparr>))))
   \<and> submitted (seed (submit dest ca cw) vl (nat mc))
        = map (submit dest ca cw) (take (nat mc) vl)
   \<and> (\<forall>r. process_volume_list health obs vl dest mc ca cw timeout True
              = Some (Inr (calls, Finished r))
          \<longrightarrow> calls = map (submit dest ca cw) vl)
   \<and> (0 < mc \<and> distinct vl \<longrightarrow>
        ((\<exists>cs r. process_volume_list health obs vl dest mc ca cw timeout True
                    = Some (Inr (cs, Finished r)))
         \<longleftrightarrow> \<not> seen_raise (submit dest ca cw) obs (seed (submit dest ca cw) vl (nat mc))
            \<and> length vl \<le> seen_done (submit dest ca cw) obs
                             (seed (submit dest ca cw) vl (nat mc))))"
proof -
  have a: "\<not> ign \<and> \<not> check_destination_aggr_status health dest
      \<longrightarrow> process_volume_list health obs vl dest mc ca cw timeout ign
            = Some (Inr ([], AbortedUnhealthy))"
    by (simp add: process_volume_list_def)
  have b: "returned AbortedUnhealthy = False \<and> summary AbortedUnhealthy = None" by simp
  have c: "process_volume_list health obs vl dest mc ca cw timeout True
        = process_volume_list health' obs vl dest mc ca cw timeout True"
    by (simp add: process_volume_list_def)
  have d: "process_volume_list health obs vl dest mc ca cw timeout True
        \<noteq> Some (Inr (calls, AbortedUnhealthy))"
    by (auto simp: process_volume_list_def Let_def split: option.splits sum.splits)
  have e: "0 < mc \<longrightarrow>
        process_volume_list health obs vl dest mc ca cw timeout True
          = (case main_loop (submit dest ca cw) obs (seed (submit dest ca cw) vl (nat mc)) of
               None \<Rightarrow> None
             | Some (Inl e) \<Rightarrow> Some (Inl e)
             | Some (Inr st) \<Rightarrow>
                 Some (Inr (submitted st,
                   Finished \<lparr>total_volumes = length vl, succeeded = success_count st,
                             failed = failed_volumes st, completed = completed_volumes st\<rparr>)))"
    by (simp add: process_volume_list_def Let_def)
  have f: "submitted (seed (submit dest ca cw) vl (nat mc))
        = map (submit dest ca cw) (take (nat mc) vl)"
    by (simp add: seed_def)
  have g: "\<forall>r. process_volume_list health obs vl dest mc ca cw timeout True
              = Some (Inr (calls, Finished r))
          \<longrightarrow> calls = map (submit dest ca cw) vl"
    using finished_calls by blast
  have h: "0 < mc \<and> distinct vl \<longrightarrow>
        ((\<exists>cs r. process_volume_list health obs vl dest mc ca cw timeout True
                    = Some (Inr (cs, Finished r)))
         \<longleftrightarrow> \<not> seen_raise (submit dest ca cw) obs (seed (submit dest ca cw) vl (nat mc))
            \<and> length vl \<le> seen_done (submit dest ca cw) obs
                             (seed (submit dest ca cw) vl (nat mc)))"
    using run_finishes_iff [of vl mc True health dest obs ca cw timeout] by blast
  show ?thesis
    using a b c d e f g h by (intro conjI) simp_all
qed

theorem unhealthy_destination_aborts_witness:
  "\<not> False \<and> \<not> check_destination_aggr_status RaisedException ''aggr1''
   \<and> process_volume_list RaisedException [\<lambda>v. Returned True] [''vol1'', ''vol2''] ''aggr1'' 4
        ''retry'' 30 86400 False
        = Some (Inr ([], AbortedUnhealthy))
   \<and> (0::int) < 4 \<and> distinct [''vol1'', ''vol2'']
   \<and> \<not> seen_raise (submit ''aggr1'' ''retry'' 30) [\<lambda>v. Returned True]
        (seed (submit ''aggr1'' ''retry'' 30) [''vol1'', ''vol2''] (nat 4))
   \<and> length [''vol1'', ''vol2''] \<le> seen_done (submit ''aggr1'' ''retry'' 30) [\<lambda>v. Returned True]
        (seed (submit ''aggr1'' ''retry'' 30) [''vol1'', ''vol2''] (nat 4))
   \<and> (\<exists>cs r. process_volume_list RaisedException [\<lambda>v. Returned True] [''vol1'', ''vol2'']
        ''aggr1'' 4 ''retry'' 30 86400 True = Some (Inr (cs, Finished r)))
   \<and> process_volume_list RaisedException [\<lambda>v. Returned True] [''vol1'', ''vol2''] ''aggr1'' 4
        ''retry'' 30 86400 True
        = Some (Inr (map (submit ''aggr1'' ''retry'' 30) [''vol1'', ''vol2''],
            Finished \<lparr>total_volumes = 2, succeeded = 2, failed = [],
                      completed = [''vol1'', ''vol2'']\<rparr>))"
proof -
  let ?sub = "submit ''aggr1'' ''retry'' 30"
  let ?obs = "[\<lambda>v. Returned True] :: observation list"
  let ?vl = "[''vol1'', ''vol2'']"
  have h: "\<not> False \<and> \<not> check_destination_aggr_status RaisedException ''aggr1''"
    by (simp add: check_destination_aggr_status_def)
  have p: "(0::int) < 4 \<and> distinct ?vl" by simp
  have nr: "\<not> seen_raise ?sub ?obs (seed ?sub ?vl (nat 4))"
    by (simp add: seed_def loop_iteration_def dict_del_def)
  have sd: "length ?vl \<le> seen_done ?sub ?obs (seed ?sub ?vl (nat 4))"
    by (simp add: seed_def loop_iteration_def dict_del_def keys_def)
  note th = unhealthy_destination_aborts [of False RaisedException "''aggr1''" ?obs ?vl 4
      "''retry''" 30 86400 RaisedException]
  have ab: "process_volume_list RaisedException ?obs ?vl ''aggr1'' 4 ''retry'' 30 86400 False
        = Some (Inr ([], AbortedUnhealthy))"
    using th h by blast
  have fin: "\<exists>cs r. process_volume_list RaisedException ?obs ?vl ''aggr1'' 4 ''retry'' 30 86400 True
      = Some (Inr (cs, Finished r))"
    using th p nr sd by blast
  have run: "process_volume_list RaisedException ?obs ?vl ''aggr1'' 4 ''retry'' 30 86400 True
        = Some (Inr (map ?sub ?vl,
            Finished \<lparr>total_volumes = 2, succeeded = 2, failed = [],
                      completed = [''vol1'', ''vol2'']\<rparr>))"
    by (simp add: process_volume_list_def seed_def loop_iteration_def submit_def dict_del_def)
  show ?thesis
    using h ab p nr sd fin run by (intro conjI) simp_all
qed

text \<open>
  C5 as the specification words it fails: the aborted run over two targets has no summary
  at all, hence none with two failed targets.
\<close>

theorem abort_has_no_summary:
  "map_option (map_sum id (\<lambda>p. (fst p, summary (snd p))))
     (process_volume_list RaisedException [] [''vol1'', ''vol2''] ''aggr1'' 4 ''retry'' 30 86400 False)
     = Some (Inr ([], None))"
  by (simp add: process_volume_list_def check_destination_aggr_status_def)

text \<open>
  C9. When the body of its \<open>try\<close> completes, \<open>_check_destination_aggr_status\<close> returns
  \<open>True\<close> for every destination name, without any query about the destination; a run
  with such a health check never takes the abort exit, whatever the other arguments.
\<close>

theorem health_check_returns_true:
  "check_destination_aggr_status Completed dest_aggr = True
   \<and> process_volume_list Completed obs vl dest_aggr mc ca cw timeout ign
        \<noteq> Some (Inr (calls, AbortedUnhealthy))"
  by (auto simp: process_volume_list_def check_destination_aggr_status_def Let_def
      split: option.splits sum.splits)

theorem health_check_returns_true_witness:
  "check_destination_aggr_status Completed ''no_such_aggregate'' = True
   \<and> process_volume_list Completed [] [''vol1''] ''no_such_aggregate'' 4 ''retry'' 30 86400 False
        \<noteq> Some (Inr ([], AbortedUnhealthy))"
  using health_check_returns_true [of "''no_such_aggregate''" "[]" "[''vol1'']" 4 "''retry''" 30
      86400 False "[]"]
  by simp

section \<open>The configured timeout\<close>

text \<open>
  C6 at a concrete run. \<open>process_volume_list\<close> is called with \<open>timeout\<close> = 100 for the
  one target \<open>vol1\<close>. The call it submits carries the timeout 86400, the default of the
  worker. The job reports \<open>running\<close> at 0 and at 200 seconds and \<open>success\<close> at 230
  seconds: the worker, as submitted, returns \<open>True\<close>, and the run reports one success,
  where a wait bounded by the configured 100 seconds ends as TimedOut at the poll of
  second 200.
\<close>

theorem configured_timeout_not_forwarded:
  "process_volume_list Completed [\<lambda>v. Returned True] [''vol1''] ''aggr1'' 4 ''retry'' 30 100 False
     = Some (Inr ([submit ''aggr1'' ''retry'' 30 ''vol1''],
         Finished \<lparr>total_volumes = 1, succeeded = 1, failed = [], completed = [''vol1'']\<rparr>))
   \<and> c_timeout (submit ''aggr1'' ''retry'' 30 ''vol1'') = 86400
   \<and> map_option (map_sum id fst)
       (future_result
          \<lparr>initiate_volume_move_cli = (\<lambda>v d a w. Started ''42''),
           wait_start_time = (\<lambda>v. 0),
           job_polls = (\<lambda>v j. [(0, JobInfo ''running'' (Some 10)),
                                (200, JobInfo ''running'' (Some 60)),
                                (230, JobInfo ''success'' (Some 100))])\<rparr>
          (submit ''aggr1'' ''retry'' 30 ''vol1'')
          \<lparr>active_moves = Map.empty, move_results = Map.empty\<rparr>)
       = Some (Inr True)
   \<and> wait_loop 0 100 [(0, JobInfo ''running'' (Some 10)),
                       (200, JobInfo ''running'' (Some 60)),
                       (230, JobInfo ''success'' (Some 100))] = Some TimedOut"
proof -
  have run: "process_volume_list Completed [\<lambda>v. Returned True] [''vol1''] ''aggr1'' 4 ''retry'' 30 100 False
     = Some (Inr ([submit ''aggr1'' ''retry'' 30 ''vol1''],
         Finished \<lparr>total_volumes = 1, succeeded = 1, failed = [], completed = [''vol1'']\<rparr>))"
    by (simp add: process_volume_list_def check_destination_aggr_status_def seed_def
        loop_iteration_def submit_def dict_del_def)
  have w: "wait_loop 0 86400 [(0, JobInfo ''running'' (Some 10)),
                       (200, JobInfo ''running'' (Some 60)),
                       (230, JobInfo ''success'' (Some 100))] = Some Succeeded"
    using classify_words(4,5) by (simp add: get_move_status_def)
  have t: "wait_loop 0 100 [(0, JobInfo ''running'' (Some 10)),
                       (200, JobInfo ''running'' (Some 60)),
                       (230, JobInfo ''success'' (Some 100))] = Some TimedOut"
    using classify_words(4) by (simp add: get_move_status_def)
  show ?thesis
    using run w t
    by (simp add: future_result_def process_volume_move_def submit_def
        wait_for_move_completion_def)
qed

section \<open>The list handed to the scheduler\<close>

lemma count_list_distinct:
  "distinct xs \<Longrightarrow> count_list xs v = (if v \<in> set xs then 1 else 0)"
  by (induction xs) auto

lemma supplied_example:
  "supplied_volumes (Some (Some [''vol1'' @ [CHR 0x0A], ''  vol2 '' @ [CHR 0x0A], [CHR 0x0A],
      ''vol1'' @ [CHR 0x0A]])) (Some [''vol2''])
     = [''vol1'', ''vol2'', ''vol1'', ''vol2'']"
  by code_simp

text \<open>
  C10. Every list that \<open>main\<close> may hand to the scheduler is without repetition and has
  exactly the supplied names as elements: each supplied name occurs once in it and no
  other name occurs. Its order is not fixed by the order of supply: every rearrangement
  of a permitted list is permitted as well, and for the names \<open>a\<close>, \<open>b\<close> supplied in this
  order both \<open>[a, b]\<close> and \<open>[b, a]\<close> are permitted.
\<close>

theorem targets_deduplicated_unordered:
  "(main_volumes volume_list_arg volume_arg volumes \<longrightarrow>
      distinct volumes
      \<and> set volumes = set (supplied_volumes volume_list_arg volume_arg)
      \<and> (\<forall>v. count_list volumes v
             = (if v \<in> set (supplied_volumes volume_list_arg volume_arg) then 1 else 0))
      \<and> (\<forall>other. mset other = mset volumes \<longrightarrow> main_volumes volume_list_arg volume_arg other))
   \<and> main_volumes None (Some [''a'', ''b'']) [''a'', ''b'']
   \<and> main_volumes None (Some [''a'', ''b'']) [''b'', ''a'']"
proof (intro conjI impI allI)
  assume m: "main_volumes volume_list_arg volume_arg volumes"
  show d: "distinct volumes" using m by (simp add: main_volumes_def list_of_set_def)
  show s: "set volumes = set (supplied_volumes volume_list_arg volume_arg)"
    using m by (simp add: main_volumes_def list_of_set_def)
  fix v
  show "count_list volumes v
      = (if v \<in> set (supplied_volumes volume_list_arg volume_arg) then 1 else 0)"
    using count_list_distinct [OF d, of v] s by simp
next
  fix other
  assume m: "main_volumes volume_list_arg volume_arg volumes"
    and p: "mset other = mset volumes"
  have "distinct other" using m p by (metis main_volumes_def list_of_set_def mset_eq_imp_distinct_iff)
  moreover have "set other = set volumes" using p by (metis set_mset_mset)
  ultimately show "main_volumes volume_list_arg volume_arg other"
    using m by (simp add: main_volumes_def list_of_set_def)
next
  show "main_volumes None (Some [''a'', ''b'']) [''a'', ''b'']"
    by (simp add: main_volumes_def list_of_set_def supplied_volumes_def)
  show "main_volumes None (Some [''a'', ''b'']) [''b'', ''a'']"
    by (auto simp: main_volumes_def list_of_set_def supplied_volumes_def)
qed

theorem targets_deduplicated_unordered_witness:
  "main_volumes (Some (Some [''vol1'' @ [CHR 0x0A], ''  vol2 '' @ [CHR 0x0A], [CHR 0x0A],
      ''vol1'' @ [CHR 0x0A]])) (Some [''vol2'']) [''vol2'', ''vol1'']
   \<and> count_list [''vol2'', ''vol1''] ''vol1'' = 1
   \<and> main_volumes (Some (Some [''vol1'' @ [CHR 0x0A], ''  vol2 '' @ [CHR 0x0A], [CHR 0x0A],
      ''vol1'' @ [CHR 0x0A]])) (Some [''vol2'']) [''vol1'', ''vol2'']"
proof -
  have m: "main_volumes (Some (Some [''vol1'' @ [CHR 0x0A], ''  vol2 '' @ [CHR 0x0A], [CHR 0x0A],
      ''vol1'' @ [CHR 0x0A]])) (Some [''vol2'']) [''vol2'', ''vol1'']"
    unfolding main_volumes_def supplied_example by (auto simp: list_of_set_def)
  have p: "mset [''vol1'', ''vol2''] = mset [''vol2'', ''vol1'']" by simp
  show ?thesis
    using m p
      targets_deduplicated_unordered [of "Some (Some [''vol1'' @ [CHR 0x0A],
        ''  vol2 '' @ [CHR 0x0A], [CHR 0x0A], ''vol1'' @ [CHR 0x0A]])" "Some [''vol2'']"
        "[''vol2'', ''vol1'']"]
    by (simp add: supplied_example)
qed

end
